theory Spec2Isabelle
  imports Complex_Main
begin

section \<open>Python values and faults\<close>

text \<open>
  Faults of the interpreter and of the library calls the module makes. Every \<open>raise\<close> and
  every library call that can fail is a branch that ends in \<open>Inl\<close> of one of these.
\<close>

datatype py_error =
    ValueError string
  | ZeroDivisionError
  | OverflowError
  | KeyError
  | TypeError
  | OSError
  | UnicodeDecodeError
  | RuntimeError string
  | CallableFault string

text \<open>Opaque payloads: arguments handed to a callable and values it returns.\<close>

datatype pyval = NoneV | BoolV bool | IntV int | StrV string

fun truthy :: "pyval \<Rightarrow> bool" where
  "truthy NoneV = False"
| "truthy (BoolV b) = b"
| "truthy (IntV i) = (i \<noteq> 0)"
| "truthy (StrV s) = (s \<noteq> [])"

section \<open>The built-in \<open>range\<close>\<close>

text \<open>
  \<open>range(start, stop, step)\<close>: a zero step is a \<open>ValueError\<close>; otherwise the object has
  \<open>range_len\<close> elements \<open>start + i * step\<close>. The range object is modelled by the list of its
  elements.
\<close>

definition range_len :: "int \<Rightarrow> int \<Rightarrow> int \<Rightarrow> nat" where
  "range_len start stop step =
     (if 0 < step \<and> start < stop then nat ((stop - start - 1) div step + 1)
      else if step < 0 \<and> stop < start then nat ((start - stop - 1) div (- step) + 1)
      else 0)"

definition py_range :: "int \<Rightarrow> int \<Rightarrow> int \<Rightarrow> py_error + int list" where
  "py_range start stop step =
     (if step = 0 then Inl (ValueError ''range() arg 3 must not be zero'')
      else Inr (map (\<lambda>i. start + int i * step) [0..<range_len start stop step]))"

text \<open>\<open>range(start, stop)\<close>, step one: it never faults.\<close>

definition py_range2 :: "int \<Rightarrow> int \<Rightarrow> int list" where
  "py_range2 start stop = [start..stop - 1]"

section \<open>Data model of the pool\<close>

text \<open>
  A unit of work as \<open>run\<close> receives it: free text, a list of argument tokens, or a Python
  callable (identified by an opaque number; its behaviour belongs to the worker that
  runs it).
\<close>

datatype cmd = CmdStr string | CmdList "string list" | Callable nat

text \<open>The display form of a command: a string, or the callable itself.\<close>

datatype disp = DispStr string | DispCallable nat

text \<open>
  The keyword arguments of \<open>run\<close>, a dictionary in insertion order. Only the key
  \<open>shell\<close> is read by this module; the rest goes to \<open>subprocess.Popen\<close> or to the callable.
\<close>

type_synonym kwargs = "(string \<times> pyval) list"

text \<open>
  A handle of a running worker: a \<open>subprocess.Popen\<close> object for an external command, a
  \<open>multiprocessing.Process\<close> object for a callable. The handle is identified by the process
  id, which the operating system keeps distinct among processes not yet reaped.
\<close>

datatype proc_kind = Popen | Process

record proc =
  p_pid :: nat
  p_kind :: proc_kind

text \<open>
  The job dictionary built by \<open>dispatch\<close>. \<open>returncode\<close> is absent until the job has been
  seen finished. The time stamps, the \<open>uuid\<close> tag and the watcher thread objects of the
  source record are not modelled: no control flow reads them.
\<close>

record job =
  j_idx :: nat
  j_cmd :: disp
  j_output :: "string list"
  j_pid :: nat
  j_returncode :: "int option"

text \<open>
  An entry of the results channel: \<open>[idx, value]\<close> for an external command (pushed by
  \<open>wait\<close>, no output), \<open>[idx, value, output]\<close> for a callable (pushed by its worker).
\<close>

record res_entry =
  r_idx :: nat
  r_val :: pyval
  r_output :: "string list option"

text \<open>
  The \<open>PooledCaller\<close> object. The job dictionaries are shared between \<open>_log\<close> and
  \<open>_pid2job\<close> in the source (one object, two references), and \<open>wait\<close> mutates them through
  \<open>_pid2job\<close>. The model keeps the objects in \<open>jobs_log\<close> (the source's \<open>_log\<close>, which is only
  ever appended to) and lets \<open>pid2job\<close> hold references: positions in \<open>jobs_log\<close>. Both
  dictionaries are association lists in insertion order.

  \<open>running_hist\<close> is instrumentation and no field of the source: the length of \<open>ps\<close> after
  every statement that changes \<open>ps\<close>, newest last.
\<close>

record pooled_caller =
  pool_size :: int
  verbose :: int
  ps :: "proc list"
  cmd_queue :: "(nat \<times> cmd \<times> pyval list \<times> kwargs) list"
  n_cmds :: nat
  idx2pid :: "(nat \<times> nat) list"
  pid2job :: "(nat \<times> nat) list"
  jobs_log :: "job list"
  res_queue :: "res_entry list"
  running_hist :: "nat list"

text \<open>
  \<open>__init__\<close>: without a \<open>pool_size\<close> the pool takes three quarters of the processor
  count, rounded down.
\<close>

definition pooled_caller_init :: "nat \<Rightarrow> int option \<Rightarrow> int \<Rightarrow> pooled_caller" where
  "pooled_caller_init cpu_count psize verb =
     \<lparr>pool_size = (case psize of None \<Rightarrow> int cpu_count * 3 div 4 | Some k \<Rightarrow> k),
      verbose = verb, ps = [], cmd_queue = [], n_cmds = 0, idx2pid = [], pid2job = [],
      jobs_log = [], res_queue = [], running_hist = []\<rparr>"

section \<open>The batching helper \<open>idss\<close>\<close>

subsection \<open>Binary floating point\<close>

text \<open>
  \<open>total / self.pool_size / 10\<close> is computed in IEEE 754 binary64. A finite double is modelled
  by a pair \<open>(m, u)\<close> of integers standing for \<open>m * 2^u\<close>, with \<open>\<bar>m\<bar> \<le> 2^53\<close> and \<open>u \<ge> -1074\<close>.
\<close>

type_synonym double = "int \<times> int"

text \<open>
  The binary exponent of a positive rational \<open>n / d\<close>, that is \<open>floor(log2(n / d))\<close>, by
  repeated doubling.
\<close>

function log2_up :: "int \<Rightarrow> int \<Rightarrow> nat" where
  "log2_up n d = (if 0 < d \<and> 2 * d \<le> n then Suc (log2_up n (2 * d)) else 0)"
  by pat_completeness auto
termination
  by (relation "measure (\<lambda>(n, d). nat (n - d))") auto

function log2_down :: "int \<Rightarrow> int \<Rightarrow> nat" where
  "log2_down n d = (if 0 < n \<and> n < d then Suc (log2_down (2 * n) d) else 0)"
  by pat_completeness auto
termination
  by (relation "measure (\<lambda>(n, d). nat (d - n))") auto

declare log2_up.simps [simp del] log2_down.simps [simp del]

definition floor_log2 :: "int \<Rightarrow> int \<Rightarrow> int" where
  "floor_log2 n d = (if d \<le> n then int (log2_up n d) else - int (log2_down n d))"

text \<open>The integer nearest to \<open>n / d\<close> for \<open>d > 0\<close>, ties to the even one.\<close>

definition round_half_even :: "int \<Rightarrow> int \<Rightarrow> int" where
  "round_half_even n d =
     (let q = n div d; r = n mod d in
      if 2 * r < d then q else if d < 2 * r then q + 1 else if even q then q else q + 1)"

text \<open>
  The double nearest to a positive rational \<open>n / d\<close>: 53 significant bits, and the fixed
  spacing \<open>2^-1074\<close> in the subnormal range. The result may exceed the largest finite double;
  the caller checks.
\<close>

definition round_double :: "int \<Rightarrow> int \<Rightarrow> double" where
  "round_double n d =
     (let e = floor_log2 n d; u = max (e - 52) (- 1074) in
      if 0 \<le> u then (round_half_even n (d * 2 ^ nat u), u)
      else (round_half_even (n * 2 ^ nat (- u)) d, u))"

text \<open>Rounding is symmetric in the sign.\<close>

definition round_quot :: "int \<Rightarrow> int \<Rightarrow> double" where
  "round_quot a b =
     (if a = 0 then (0, 0)
      else (let (m, u) = round_double \<bar>a\<bar> \<bar>b\<bar>
            in (if (a < 0) = (b < 0) then m else - m, u)))"

text \<open>A rounded quotient of magnitude \<open>2^1024\<close> or more is not a finite double.\<close>

definition overflows :: "double \<Rightarrow> bool" where
  "overflows x = (case x of (m, u) \<Rightarrow> 0 \<le> u \<and> 2 ^ 1024 \<le> \<bar>m\<bar> * 2 ^ nat u)"

text \<open>
  \<open>a / b\<close> on two Python \<open>int\<close>s: the exact quotient, correctly rounded;
  \<open>ZeroDivisionError\<close> on a zero divisor and \<open>OverflowError\<close> when the quotient is too large
  for a float.
\<close>

definition py_true_div :: "int \<Rightarrow> int \<Rightarrow> py_error + double" where
  "py_true_div a b =
     (if b = 0 then Inl ZeroDivisionError
      else (let x = round_quot a b in if overflows x then Inl OverflowError else Inr x))"

text \<open>
  \<open>x / k\<close> on a float and a small non-zero \<open>int\<close> (here always \<open>10\<close>, which converts to a
  float exactly): the IEEE division, correctly rounded; it cannot overflow for \<open>\<bar>k\<bar> \<ge> 1\<close>.
\<close>

definition float_div_int :: "double \<Rightarrow> int \<Rightarrow> double" where
  "float_div_int x k =
     (case x of (m, u) \<Rightarrow>
        if 0 \<le> u then round_quot (m * 2 ^ nat u) k else round_quot m (k * 2 ^ nat (- u)))"

text \<open>\<open>int(np.ceil(x))\<close>: the least integer not below \<open>x\<close>.\<close>

definition np_ceil_int :: "double \<Rightarrow> int" where
  "np_ceil_int x = (case x of (m, u) \<Rightarrow> if 0 \<le> u then m * 2 ^ nat u else - ((- m) div 2 ^ nat (- u)))"

text \<open>The real number a double stands for; used in the proofs only.\<close>

definition double_val :: "double \<Rightarrow> real" where
  "double_val x = (case x of (m, u) \<Rightarrow> of_int m * 2 powi u)"

subsection \<open>The ranges\<close>

text \<open>
  \<open>int(np.ceil(total / self.pool_size / 10))\<close>: the true division of the two integers, the
  division of the resulting float by ten, the ceiling. The first division raises on a zero
  \<open>pool_size\<close> and on a quotient beyond the range of a float.
\<close>

definition default_batch_size :: "int \<Rightarrow> int \<Rightarrow> py_error + int" where
  "default_batch_size tot psize =
     (case py_true_div tot psize of
        Inl e \<Rightarrow> Inl e
      | Inr x \<Rightarrow> Inr (np_ceil_int (float_div_int x 10)))"

text \<open>
  The generator expression evaluates its outer \<open>range(0, total, batch_size)\<close> when it is
  created, so a zero step faults inside the call of \<open>idss\<close>; the inner ranges have step
  one and never fault. The generator is modelled by the list of the ranges it yields.
\<close>

definition idss :: "pooled_caller \<Rightarrow> int \<Rightarrow> int option \<Rightarrow> py_error + int list list" where
  "idss self tot batch_size =
     (case (case batch_size of None \<Rightarrow> default_batch_size tot (pool_size self)
                              | Some b \<Rightarrow> Inr b) of
        Inl e \<Rightarrow> Inl e
      | Inr b \<Rightarrow>
          (case py_range 0 tot b of
             Inl e \<Rightarrow> Inl e
           | Inr ks \<Rightarrow> Inr (map (\<lambda>k. py_range2 k (min (k + b) tot)) ks)))"

section \<open>Command normalisation\<close>

subsection \<open>The tokenizer \<open>shlex.split\<close>\<close>

text \<open>
  \<open>shlex.split(s)\<close> of the standard library, as \<open>cmd_for_exec\<close> and \<open>cmd_for_disp\<close> call it:
  POSIX mode, \<open>whitespace_split\<close> set, no comment characters, no punctuation characters.
  The lexer reads one character at a time. Its \<open>state\<close> is a blank (between tokens), the
  letter \<open>a\<close> (inside a word), a quote character (inside a quoted part) or the escape
  character (right after a backslash); \<open>escapedstate\<close> is the state to return to after an
  escaped character; \<open>quoted\<close> records that the current token had a quoted part, so that
  an empty quoted token is still a token.
\<close>

datatype lex_state = Blank | Word | Quoted char | Escaped

definition whitespace :: "char set" where
  "whitespace = {CHR '' '', CHR 0x09, CHR 0x0D, CHR 0x0A}"

definition quotes :: "char set" where
  "quotes = {CHR 0x27, CHR 0x22}"

definition escape :: "char set" where
  "escape = {CHR 0x5C}"

definition escapedquotes :: "char set" where
  "escapedquotes = {CHR 0x22}"

text \<open>A finished token goes in front of the tokens read after it; a fault discards it.\<close>

definition emit :: "string \<Rightarrow> py_error + string list \<Rightarrow> py_error + string list" where
  "emit tok r = (case r of Inl e \<Rightarrow> Inl e | Inr ts \<Rightarrow> Inr (tok # ts))"

text \<open>
  \<open>read_token\<close>, iterated until the end of the input. The arguments are \<open>state\<close>,
  \<open>escapedstate\<close>, \<open>quoted\<close>, the token read so far and the rest of the input. In a blank
  state a word character, and with \<open>whitespace_split\<close> any other character that is no
  whitespace, escape or quote, starts a token.
\<close>

fun lex :: "lex_state \<Rightarrow> lex_state \<Rightarrow> bool \<Rightarrow> string \<Rightarrow> string \<Rightarrow> py_error + string list" where
  "lex Blank es q tok [] = (if tok \<noteq> [] \<or> q then Inr [tok] else Inr [])"
| "lex Word es q tok [] = (if tok \<noteq> [] \<or> q then Inr [tok] else Inr [])"
| "lex (Quoted d) es q tok [] = Inl (ValueError ''No closing quotation'')"
| "lex Escaped es q tok [] = Inl (ValueError ''No escaped character'')"
| "lex Blank es q tok (c # cs) =
     (if c \<in> whitespace then
        (if tok \<noteq> [] \<or> q then emit tok (lex Blank Blank False [] cs)
         else lex Blank es q tok cs)
      else if c \<in> escape then lex Escaped Word q tok cs
      else if c \<in> quotes then lex (Quoted c) es q tok cs
      else lex Word es q [c] cs)"
| "lex (Quoted d) es q tok (c # cs) =
     (if c = d then lex Word es True tok cs
      else if c \<in> escape \<and> d \<in> escapedquotes then lex Escaped (Quoted d) True tok cs
      else lex (Quoted d) es True (tok @ [c]) cs)"
| "lex Escaped es q tok (c # cs) =
     (case es of
        Quoted d \<Rightarrow>
          (if c \<notin> escape \<and> c \<noteq> d then lex es es q (tok @ [CHR 0x5C, c]) cs
           else lex es es q (tok @ [c]) cs)
      | _ \<Rightarrow> lex es es q (tok @ [c]) cs)"
| "lex Word es q tok (c # cs) =
     (if c \<in> whitespace then
        (if tok \<noteq> [] \<or> q then emit tok (lex Blank Blank False [] cs)
         else lex Blank es q tok cs)
      else if c \<in> quotes then lex (Quoted c) es q tok cs
      else if c \<in> escape then lex Escaped Word q tok cs
      else lex Word es q (tok @ [c]) cs)"

definition shlex_split :: "string \<Rightarrow> py_error + string list" where
  "shlex_split s = lex Blank Blank False [] s"

subsection \<open>\<open>cmd_for_exec\<close> and \<open>cmd_for_disp\<close>\<close>

text \<open>\<open>' '.join(tokens)\<close>.\<close>

fun join_spaces :: "string list \<Rightarrow> string" where
  "join_spaces [] = []"
| "join_spaces [t] = t"
| "join_spaces (t # u # ts) = t @ CHR '' '' # join_spaces (u # ts)"

text \<open>
  When \<open>cmd_for_exec\<close> is handed the keyword dictionary of \<open>run\<close> for its \<open>shell\<close> argument,
  the flag is \<open>'shell' in shell and shell['shell']\<close>.
\<close>

definition shell_of_kwargs :: "kwargs \<Rightarrow> bool" where
  "shell_of_kwargs kw = (case map_of kw ''shell'' of None \<Rightarrow> False | Some v \<Rightarrow> truthy v)"

definition cmd_for_exec :: "cmd \<Rightarrow> bool \<Rightarrow> py_error + cmd" where
  "cmd_for_exec c shell =
     (case c of
        Callable f \<Rightarrow> Inr c
      | CmdStr s \<Rightarrow>
          (if shell then Inr c
           else (case shlex_split s of Inl e \<Rightarrow> Inl e | Inr ts \<Rightarrow> Inr (CmdList ts)))
      | CmdList ts \<Rightarrow> (if shell then Inr (CmdStr (join_spaces ts)) else Inr c))"

definition cmd_for_disp :: "cmd \<Rightarrow> py_error + disp" where
  "cmd_for_disp c =
     (case c of
        Callable f \<Rightarrow> Inr (DispCallable f)
      | CmdStr s \<Rightarrow>
          (case shlex_split s of Inl e \<Rightarrow> Inl e | Inr ts \<Rightarrow> Inr (DispStr (join_spaces ts)))
      | CmdList ts \<Rightarrow> Inr (DispStr (join_spaces ts)))"

text \<open>
  A token is \<open>plain\<close> when it is not empty and holds no whitespace, quote or backslash:
  the tokenizer reads such a token back as it is.
\<close>

definition plain :: "string \<Rightarrow> bool" where
  "plain t = (t \<noteq> [] \<and> (\<forall>c \<in> set t. c \<notin> whitespace \<and> c \<notin> quotes \<and> c \<notin> escape))"

section \<open>Printing integers and splitting lines\<close>

text \<open>\<open>str(n)\<close> for an integer, as \<open>format\<close> and the f-string of \<open>run\<close> print it.\<close>

fun str_nat :: "nat \<Rightarrow> string" where
  "str_nat n = (if n < 10 then [''0123456789'' ! n]
                else str_nat (n div 10) @ [''0123456789'' ! (n mod 10)])"

declare str_nat.simps [simp del]

definition str_int :: "int \<Rightarrow> string" where
  "str_int i = (if i < 0 then CHR ''-'' # str_nat (nat (- i)) else str_nat (nat i))"

text \<open>
  \<open>s.splitlines(True)\<close>: the lines of \<open>s\<close> with their line ends kept. A carriage return
  followed by a line feed is one line end. Characters are code points below 256, so
  the two line separators beyond that range do not occur.
\<close>

definition linebreaks :: "char set" where
  "linebreaks = {CHR 0x0A, CHR 0x0B, CHR 0x0C, CHR 0x0D, CHR 0x1C, CHR 0x1D, CHR 0x1E, CHR 0x85}"

fun splitlines_from :: "string \<Rightarrow> string \<Rightarrow> string list" where
  "splitlines_from cur [] = (if cur = [] then [] else [cur])"
| "splitlines_from cur [c] = [cur @ [c]]"
| "splitlines_from cur (c # d # cs) =
     (if c = CHR 0x0D \<and> d = CHR 0x0A then (cur @ [c, d]) # splitlines_from [] cs
      else if c \<in> linebreaks then (cur @ [c]) # splitlines_from [] (d # cs)
      else splitlines_from (cur @ [c]) (d # cs))"

definition splitlines :: "string \<Rightarrow> string list" where
  "splitlines s = splitlines_from [] s"

section \<open>The single-command wrapper \<open>run\<close>\<close>

text \<open>
  What the operating system does with one external command: \<open>subprocess.Popen\<close> either
  fails to start it or gives a process with a pid; the process writes lines to its
  pipe, each of which \<open>decode('utf-8')\<close> turns into text or rejects; \<open>p.wait()\<close> gives the
  return code. \<open>time.time()\<close> is read once after the start and once after the end.
\<close>

record completed =
  c_pid :: nat
  c_stdout :: "(py_error + string) list"
  c_returncode :: int

record run_env =
  popen :: "string list \<Rightarrow> py_error + completed"
  start_clock :: real
  stop_clock :: real

text \<open>The dictionary \<open>res\<close> that \<open>run\<close> returns.\<close>

record run_result =
  res_cmd :: string
  res_pid :: nat
  res_output :: "string list"
  res_start_time :: real
  res_returncode :: int
  res_stop_time :: real

text \<open>The loop over \<open>p.stdout.readline\<close>: the first line that does not decode raises.\<close>

fun read_lines :: "(py_error + string) list \<Rightarrow> py_error + string list" where
  "read_lines [] = Inr []"
| "read_lines (Inl e # ls) = Inl e"
| "read_lines (Inr l # ls) = (case read_lines ls of Inl e \<Rightarrow> Inl e | Inr out \<Rightarrow> Inr (l # out))"

definition run_error_message :: "int \<Rightarrow> string \<Rightarrow> string" where
  "run_error_message rc cmd_str =
     ''Error occurs when executing the following command (returncode='' @ str_int rc
     @ ''):'' @ [CHR 0x0A] @ cmd_str"

text \<open>
  The argument vector \<open>Popen\<close> executes without a shell: a list as it is, a string as the
  name of the program.
\<close>

fun argv :: "cmd \<Rightarrow> string list" where
  "argv (CmdList args) = args"
| "argv (CmdStr s) = [s]"
| "argv (Callable f) = []"

text \<open>
  \<open>run(cmd, check, verbose)\<close>. What it prints is not modelled, so \<open>verbose\<close> has no
  effect here. A callable is no command: \<open>Popen\<close> rejects it.
\<close>

definition run :: "run_env \<Rightarrow> cmd \<Rightarrow> bool \<Rightarrow> int \<Rightarrow> py_error + run_result" where
  "run env c check verb =
     (case cmd_for_exec c False of
        Inl e \<Rightarrow> Inl e
      | Inr c' \<Rightarrow>
     (case cmd_for_disp c' of
        Inl e \<Rightarrow> Inl e
      | Inr (DispCallable f) \<Rightarrow> Inl TypeError
      | Inr (DispStr cmd_str) \<Rightarrow>
     (case popen env (argv c') of
        Inl e \<Rightarrow> Inl e
      | Inr p \<Rightarrow>
     (case read_lines (c_stdout p) of
        Inl e \<Rightarrow> Inl e
      | Inr out \<Rightarrow>
          if c_returncode p \<noteq> 0 \<and> check
          then Inl (RuntimeError (run_error_message (c_returncode p) cmd_str))
          else Inr \<lparr>res_cmd = cmd_str, res_pid = c_pid p, res_output = out,
                    res_start_time = start_clock env, res_returncode = c_returncode p,
                    res_stop_time = stop_clock env\<rparr>))))"

section \<open>The verdict \<open>all_successful\<close>\<close>

text \<open>
  A compiled pattern is modelled by what \<open>search\<close> does with it on a line. The default
  pattern \<open>error|\*{2}\<close>, compiled with \<open>re.IGNORECASE\<close>, is a choice between two runs of
  character classes: the five letters of \<open>error\<close> in either case, or two asterisks.
  \<open>re_search\<close> looks for such a run anywhere in the line.
\<close>

fun match_here :: "char set list \<Rightarrow> string \<Rightarrow> bool" where
  "match_here [] s = True"
| "match_here (cls # rest) [] = False"
| "match_here (cls # rest) (c # s) = (c \<in> cls \<and> match_here rest s)"

fun re_search :: "char set list \<Rightarrow> string \<Rightarrow> bool" where
  "re_search pat [] = match_here pat []"
| "re_search pat (c # s) = (match_here pat (c # s) \<or> re_search pat s)"

definition default_error_pattern :: "string \<Rightarrow> bool" where
  "default_error_pattern line =
     (re_search [{CHR ''e'', CHR ''E''}, {CHR ''r'', CHR ''R''}, {CHR ''r'', CHR ''R''},
                 {CHR ''o'', CHR ''O''}, {CHR ''r'', CHR ''R''}] line
      \<or> re_search [{CHR ''*''}, {CHR ''*''}] line)"

text \<open>
  \<open>[job['returncode'] for job in jobs]\<close>: a job not yet seen finished has no such key.
\<close>

fun returncodes :: "job list \<Rightarrow> py_error + int list" where
  "returncodes [] = Inr []"
| "returncodes (j # js) =
     (case j_returncode j of
        None \<Rightarrow> Inl KeyError
      | Some rc \<Rightarrow> (case returncodes js of Inl e \<Rightarrow> Inl e | Inr rcs \<Rightarrow> Inr (rc # rcs)))"

text \<open>\<open>np.any\<close> of a list of integers: some element is not zero.\<close>

definition np_any :: "int list \<Rightarrow> bool" where
  "np_any rcs = (\<exists>rc \<in> set rcs. rc \<noteq> 0)"

text \<open>
  \<open>all_successful(error_pattern, jobs)\<close>: the pattern argument is the compiled pattern,
  or \<open>None\<close> when the caller switches the check of the output off; a caller that leaves
  the argument out passes \<open>default_error_pattern\<close>. \<open>jobs\<close> defaults to the whole history.
  The lines it prints are not modelled, so \<open>verbose\<close> is no argument here.
\<close>

definition count_errors :: "(string \<Rightarrow> bool) option \<Rightarrow> job list \<Rightarrow> nat" where
  "count_errors error_pattern js =
     (case error_pattern of
        None \<Rightarrow> 0
      | Some pat \<Rightarrow> length (filter pat (concat (map j_output js))))"

definition all_successful ::
  "pooled_caller \<Rightarrow> (string \<Rightarrow> bool) option \<Rightarrow> job list option \<Rightarrow> py_error + bool" where
  "all_successful self error_pattern jobs =
     (let js = (case jobs of None \<Rightarrow> jobs_log self | Some js \<Rightarrow> js) in
      case returncodes js of
        Inl e \<Rightarrow> Inl e
      | Inr rcs \<Rightarrow> Inr (\<not> np_any rcs \<and> count_errors error_pattern js = 0))"

section \<open>The worker of a callable job\<close>

text \<open>
  What one call \<open>cmd(*args, **kwargs)\<close> does inside the worker: it writes text to the two
  redirected streams and then either returns a value or raises an \<open>Exception\<close> whose
  \<open>str\<close> is the message.
\<close>

datatype ending = Returns pyval | Raises string

record call_run =
  out_text :: string
  err_text :: string
  ending :: ending

text \<open>
  \<open>_callable_wrapper(idx, cmd, *args, **kwargs)\<close>. It runs in the worker process, where
  the only field of the pool it touches is the results channel. The result is the
  exception that leaves the wrapper (if any), the final content of the error buffer,
  and the pool with the channel after the \<open>put\<close> of the \<open>finally\<close> clause.
\<close>

definition callable_wrapper ::
  "pooled_caller \<Rightarrow> nat \<Rightarrow> (pyval list \<Rightarrow> kwargs \<Rightarrow> call_run) \<Rightarrow> pyval list \<Rightarrow> kwargs
   \<Rightarrow> py_error option \<times> string \<times> pooled_caller" where
  "callable_wrapper self idx f args kw =
     (let r = f args kw in
      case ending r of
        Returns v \<Rightarrow>
          (let output = splitlines (out_text r) @ splitlines (err_text r) in
           (None, err_text r,
            self\<lparr>res_queue := res_queue self
                     @ [\<lparr>r_idx = idx, r_val = v, r_output = Some output\<rparr>]\<rparr>))
      | Raises msg \<Rightarrow>
          (let err = err_text r @ ''>> Error occurs in job#'' @ str_nat idx @ [CHR 0x0A]
                     @ ''** ERROR: '' @ msg @ [CHR 0x0A];
               output = splitlines (out_text r) @ splitlines err in
           (Some (CallableFault msg), err,
            self\<lparr>res_queue := res_queue self
                     @ [\<lparr>r_idx = idx, r_val = NoneV, r_output = Some output\<rparr>]\<rparr>)))"

text \<open>
  The exit code \<open>multiprocessing\<close> gives a worker process: \<open>0\<close> when the target returned,
  \<open>1\<close> when an exception left it.
\<close>

definition process_exitcode :: "py_error option \<Rightarrow> int" where
  "process_exitcode raised = (case raised of None \<Rightarrow> 0 | Some e \<Rightarrow> 1)"

section \<open>Submitting, dispatching and waiting\<close>

text \<open>
  A method of the pool mutates the object and may raise: it returns the fault (if any)
  together with the pool as the fault left it, since the caller still holds the object.
\<close>

text \<open>A dictionary store \<open>d[k] = v\<close>: an existing key keeps its place.\<close>

fun dict_set :: "'k \<Rightarrow> 'v \<Rightarrow> ('k \<times> 'v) list \<Rightarrow> ('k \<times> 'v) list" where
  "dict_set k v [] = [(k, v)]"
| "dict_set k v ((k', v') # d) = (if k = k' then (k, v) # d else (k', v') # dict_set k v d)"

text \<open>
  \<open>PooledCaller.run(cmd, *args, **kwargs)\<close>: normalise the command, queue it under the
  next index, count it.
\<close>

definition pc_run ::
  "pooled_caller \<Rightarrow> cmd \<Rightarrow> pyval list \<Rightarrow> kwargs \<Rightarrow> py_error option \<times> pooled_caller" where
  "pc_run self c args kw =
     (case cmd_for_exec c (shell_of_kwargs kw) of
        Inl e \<Rightarrow> (Some e, self)
      | Inr c' \<Rightarrow>
          (None, self\<lparr>cmd_queue := cmd_queue self @ [(n_cmds self, c', args, kw)],
                      n_cmds := n_cmds self + 1\<rparr>))"

text \<open>
  The operating system as the pool meets it. \<open>launch\<close> starts the worker of a job
  (\<open>subprocess.Popen\<close> or \<open>Process.start\<close>) and gives its pid, or fails. One \<open>tick\<close> is what
  one pass of the loop of \<open>wait\<close> observes: for a handle, whether it has terminated and
  with which code (\<open>p.poll()\<close>, or \<open>p.is_alive()\<close> and \<open>p.exitcode\<close>); the lines the watcher
  thread of an external command has collected once it is joined; and the entries that
  the workers of callables have pushed on the results channel before the polling of
  this pass, and between the polling and the \<open>get\<close> of this pass.
\<close>

record os_env =
  launch :: "nat \<Rightarrow> cmd \<Rightarrow> py_error + nat"

record tick =
  exited :: "proc \<Rightarrow> int option"
  captured :: "proc \<Rightarrow> string list"
  arrived_early :: "res_entry list"
  arrived_late :: "res_entry list"

text \<open>
  The body of the loop of \<open>dispatch\<close>: pop the head of the queue, build the job, start
  the worker, and enter it in \<open>ps\<close>, the two dictionaries and the history. A fault of
  \<open>cmd_for_disp\<close> or of the launch leaves the command popped.
\<close>

definition start_job :: "os_env \<Rightarrow> pooled_caller \<Rightarrow> py_error option \<times> pooled_caller" where
  "start_job env self =
     (case cmd_queue self of
        [] \<Rightarrow> (None, self)
      | (idx, c, args, kw) # rest \<Rightarrow>
          (let s1 = self\<lparr>cmd_queue := rest\<rparr> in
           case cmd_for_disp c of
             Inl e \<Rightarrow> (Some e, s1)
           | Inr d \<Rightarrow>
               (case launch env idx c of
                  Inl e \<Rightarrow> (Some e, s1)
                | Inr pid \<Rightarrow>
                    (let p = \<lparr>p_pid = pid,
                              p_kind = (case c of Callable f \<Rightarrow> Process | _ \<Rightarrow> Popen)\<rparr>;
                         job = \<lparr>j_idx = idx, j_cmd = d, j_output = [], j_pid = pid,
                                j_returncode = None\<rparr>
                     in (None, s1\<lparr>ps := ps s1 @ [p],
                                  running_hist := running_hist s1 @ [length (ps s1 @ [p])],
                                  idx2pid := dict_set idx pid (idx2pid s1),
                                  pid2job := dict_set pid (length (jobs_log s1)) (pid2job s1),
                                  jobs_log := jobs_log s1 @ [job]\<rparr>)))))"

text \<open>\<open>dispatch()\<close>: while there is a free slot and a queued command, start one.\<close>

function dispatch :: "os_env \<Rightarrow> pooled_caller \<Rightarrow> py_error option \<times> pooled_caller" where
  "dispatch env self =
     (if int (length (ps self)) < pool_size self \<and> cmd_queue self \<noteq> []
      then (case start_job env self of
              (Some e, s') \<Rightarrow> (Some e, s')
            | (None, s') \<Rightarrow> dispatch env s')
      else (None, self))"
  by pat_completeness auto
termination
  apply (relation "measure (\<lambda>(env, self). length (cmd_queue self))")
   apply simp
  apply (auto simp: start_job_def Let_def split: sum.splits prod.splits list.splits)
  done

declare dispatch.simps [simp del]

text \<open>
  The body of the polling loop for one handle. The job is looked up by pid; a handle
  seen terminated gets its return code, leaves \<open>ps\<close>, and, for an external command, its
  job takes the collected output and a placeholder entry goes on the results channel.
  The watcher thread fills the job's output while the command runs; the model enters
  the lines in the job when the watcher is joined, which is when \<open>wait\<close> first reads them.
\<close>

definition poll_one :: "tick \<Rightarrow> proc \<Rightarrow> pooled_caller \<Rightarrow> py_error option \<times> pooled_caller" where
  "poll_one t p self =
     (case map_of (pid2job self) (p_pid p) of
        None \<Rightarrow> (Some KeyError, self)
      | Some r \<Rightarrow>
          (case exited t p of
             None \<Rightarrow> (None, self)
           | Some rc \<Rightarrow>
               (let job = jobs_log self ! r;
                    s1 = self\<lparr>ps := remove1 p (ps self),
                              running_hist := running_hist self @ [length (remove1 p (ps self))]\<rparr>
                in case p_kind p of
                     Popen \<Rightarrow>
                       (None, s1\<lparr>jobs_log := (jobs_log self)
                                     [r := job\<lparr>j_returncode := Some rc, j_output := captured t p\<rparr>],
                                 res_queue := res_queue self
                                     @ [\<lparr>r_idx = j_idx job, r_val = NoneV, r_output = None\<rparr>]\<rparr>)
                   | Process \<Rightarrow>
                       (None, s1\<lparr>jobs_log := (jobs_log self)
                                     [r := job\<lparr>j_returncode := Some rc\<rparr>]\<rparr>))))"

text \<open>
  \<open>for p in self.ps:\<close> with \<open>self.ps.remove(p)\<close> in its body. The list iterator keeps a
  position and reads the list as it is at each step, so the handle that moves into the
  place of a removed one is not visited in this pass.
\<close>

function poll_from :: "tick \<Rightarrow> nat \<Rightarrow> pooled_caller \<Rightarrow> py_error option \<times> pooled_caller" where
  "poll_from t i self =
     (if i < length (ps self)
      then (case poll_one t (ps self ! i) self of
              (Some e, s') \<Rightarrow> (Some e, s')
            | (None, s') \<Rightarrow> poll_from t (Suc i) s')
      else (None, self))"
  by pat_completeness auto
termination
  apply (relation "measure (\<lambda>(t, i, self). length (ps self) - i)")
   apply simp
  apply (auto simp: poll_one_def Let_def length_remove1 split: option.splits proc_kind.splits)
  done

declare poll_from.simps [simp del]

text \<open>
  \<open>_async_get_res(res_list)\<close>: one \<open>get\<close> that does not block. An entry with output (from
  the worker of a callable) also stores the output in the job found through the two
  dictionaries. The list of results belongs to \<open>wait\<close>.
\<close>

definition async_get_res ::
  "pooled_caller \<Rightarrow> (nat \<times> pyval) list
   \<Rightarrow> py_error option \<times> pooled_caller \<times> (nat \<times> pyval) list" where
  "async_get_res self res_list =
     (case res_queue self of
        [] \<Rightarrow> (None, self, res_list)
      | res # q \<Rightarrow>
          (let s1 = self\<lparr>res_queue := q\<rparr>;
               res_list' = res_list @ [(r_idx res, r_val res)]
           in case r_output res of
                None \<Rightarrow> (None, s1, res_list')
              | Some out \<Rightarrow>
                  (case map_of (idx2pid s1) (r_idx res) of
                     None \<Rightarrow> (Some KeyError, s1, res_list')
                   | Some pid \<Rightarrow>
                       (case map_of (pid2job s1) pid of
                          None \<Rightarrow> (Some KeyError, s1, res_list')
                        | Some r \<Rightarrow>
                            (None,
                             s1\<lparr>jobs_log := (jobs_log s1)
                                   [r := (jobs_log s1 ! r)\<lparr>j_output := out\<rparr>]\<rparr>,
                             res_list')))))"

text \<open>
  How a call of \<open>wait\<close> ends: it returns a value, a fault leaves it, or it is still in
  its loop when the observations end (a job that never terminates, or a queue that can
  never be dispatched, keeps it there for ever).
\<close>

datatype 'a outcome = Returned 'a | Raised py_error | Waiting

text \<open>
  The loop \<open>while len(self.ps) > 0 or len(self.cmd_queue) > 0\<close>, one observation per
  pass: dispatch, poll every handle, sleep, take one entry from the results channel.
\<close>

fun wait_loop ::
  "os_env \<Rightarrow> tick list \<Rightarrow> pooled_caller \<Rightarrow> (nat \<times> pyval) list
   \<Rightarrow> (nat \<times> pyval) list outcome \<times> pooled_caller" where
  "wait_loop env [] self ress =
     (if ps self \<noteq> [] \<or> cmd_queue self \<noteq> [] then (Waiting, self)
      else (Returned ress, self))"
| "wait_loop env (t # ts) self ress =
     (if ps self \<noteq> [] \<or> cmd_queue self \<noteq> [] then
        (case dispatch env (self\<lparr>res_queue := res_queue self @ arrived_early t\<rparr>) of
           (Some e, s1) \<Rightarrow> (Raised e, s1)
         | (None, s1) \<Rightarrow>
             (case poll_from t 0 s1 of
                (Some e, s2) \<Rightarrow> (Raised e, s2)
              | (None, s2) \<Rightarrow>
                  (case async_get_res (s2\<lparr>res_queue := res_queue s2 @ arrived_late t\<rparr>) ress of
                     (Some e, s3, ress') \<Rightarrow> (Raised e, s3)
                   | (None, s3, ress') \<Rightarrow> wait_loop env ts s3 ress')))
      else (Returned ress, self))"

text \<open>What \<open>wait\<close> returns, by its two flags.\<close>

datatype wait_value =
    Ress "pyval list"
  | RessJobs "pyval list" "job list"
  | Codes "int list"
  | CodesJobs "int list" "job list"

text \<open>
  \<open>wait(pool_size, return_codes, return_jobs)\<close>. After the loop: one more \<open>get\<close>, the
  results sorted by index, the jobs of this batch (the values of \<open>_pid2job\<close>) sorted by
  index, their return codes, the reset of the batch state and of a temporary
  \<open>pool_size\<close>. The summary it prints is not modelled.
\<close>

definition wait ::
  "os_env \<Rightarrow> tick list \<Rightarrow> pooled_caller \<Rightarrow> int option \<Rightarrow> bool \<Rightarrow> bool
   \<Rightarrow> wait_value outcome \<times> pooled_caller" where
  "wait env ticks self psize return_codes return_jobs =
     (let old_size = pool_size self;
          s0 = (case psize of None \<Rightarrow> self | Some k \<Rightarrow> self\<lparr>pool_size := k\<rparr>)
      in case wait_loop env ticks s0 [] of
           (Raised e, s1) \<Rightarrow> (Raised e, s1)
         | (Waiting, s1) \<Rightarrow> (Waiting, s1)
         | (Returned ress, s1) \<Rightarrow>
             (case async_get_res s1 ress of
                (Some e, s2, ress') \<Rightarrow> (Raised e, s2)
              | (None, s2, ress') \<Rightarrow>
                  (let vals = map snd (sort_key fst ress');
                       jobs = sort_key j_idx (map (\<lambda>(pid, r). jobs_log s2 ! r) (pid2job s2))
                   in case returncodes jobs of
                        Inl e \<Rightarrow> (Raised e, s2)
                      | Inr codes \<Rightarrow>
                          (let s3 = s2\<lparr>n_cmds := 0, idx2pid := [], pid2job := []\<rparr>;
                               s4 = (case psize of None \<Rightarrow> s3
                                                  | Some k \<Rightarrow> s3\<lparr>pool_size := old_size\<rparr>)
                           in (Returned
                                 (if return_codes
                                  then (if return_jobs then CodesJobs codes jobs else Codes codes)
                                  else (if return_jobs then RessJobs vals jobs else Ress vals)),
                               s4)))))"

section \<open>Invariants of the pool\<close>

text \<open>
  The running set within a bound \<open>K\<close>: the pool size is \<open>K\<close>, \<open>ps\<close> has at most \<open>K\<close> members,
  and so had \<open>ps\<close> after every change recorded since the history was \<open>h0\<close>.
\<close>

definition within_pool :: "nat list \<Rightarrow> int \<Rightarrow> pooled_caller \<Rightarrow> bool" where
  "within_pool h0 K s \<longleftrightarrow>
     pool_size s = K \<and> int (length (ps s)) \<le> K
     \<and> (\<exists>new. running_hist s = h0 @ new \<and> (\<forall>n \<in> set new. int n \<le> K))"


section \<open>The batching helper: proofs\<close>

lemma log2_up_spec:
  "0 < d \<Longrightarrow> d \<le> n \<Longrightarrow> d * 2 ^ log2_up n d \<le> n \<and> n < d * 2 ^ Suc (log2_up n d)"
proof (induction n d rule: log2_up.induct)
  case (1 n d)
  show ?case
  proof (cases "2 * d \<le> n")
    case True
    with "1.prems" have u: "log2_up n d = Suc (log2_up n (2 * d))"
      by (subst log2_up.simps) simp
    from "1.IH" True "1.prems" have
      "2 * d * 2 ^ log2_up n (2 * d) \<le> n \<and> n < 2 * d * 2 ^ Suc (log2_up n (2 * d))"
      by simp
    then show ?thesis by (simp add: u mult.assoc)
  next
    case False
    then have "log2_up n d = 0" by (subst log2_up.simps) simp
    with False "1.prems" show ?thesis by simp
  qed
qed

lemma log2_down_spec:
  "0 < n \<Longrightarrow> n < d \<Longrightarrow> d \<le> n * 2 ^ log2_down n d \<and> n * 2 ^ log2_down n d < 2 * d"
proof (induction n d rule: log2_down.induct)
  case (1 n d)
  from "1.prems" have u: "log2_down n d = Suc (log2_down (2 * n) d)"
    by (subst log2_down.simps) simp
  show ?case
  proof (cases "2 * n < d")
    case True
    from "1.IH" True "1.prems" have
      "d \<le> 2 * n * 2 ^ log2_down (2 * n) d \<and> 2 * n * 2 ^ log2_down (2 * n) d < 2 * d"
      by simp
    then show ?thesis by (simp add: u mult.assoc mult.left_commute)
  next
    case False
    then have "log2_down (2 * n) d = 0" by (subst log2_down.simps) simp
    with False "1.prems" show ?thesis by (simp add: u)
  qed
qed

lemma floor_log2_spec:
  assumes "0 < n" "0 < d"
  shows "2 powi floor_log2 n d \<le> real_of_int n / real_of_int d"
    and "real_of_int n / real_of_int d < 2 powi (floor_log2 n d + 1)"
proof -
  have dpos: "0 < real_of_int d" using assms by simp
  show "2 powi floor_log2 n d \<le> real_of_int n / real_of_int d"
  proof (cases "d \<le> n")
    case True
    from log2_up_spec[OF assms(2) True] have "d * 2 ^ log2_up n d \<le> n" by simp
    then have "real_of_int (d * 2 ^ log2_up n d) \<le> real_of_int n" by (rule of_int_le_iff[THEN iffD2])
    then have "2 ^ log2_up n d * real_of_int d \<le> real_of_int n" by (simp add: mult.commute)
    then have "2 ^ log2_up n d \<le> real_of_int n / real_of_int d"
      using dpos by (simp add: pos_le_divide_eq)
    with True show ?thesis by (simp add: floor_log2_def)
  next
    case False
    then have lt: "n < d" by simp
    from log2_down_spec[OF assms(1) lt] have "d \<le> n * 2 ^ log2_down n d" by simp
    then have "real_of_int d \<le> real_of_int (n * 2 ^ log2_down n d)" by (rule of_int_le_iff[THEN iffD2])
    then have "real_of_int d \<le> real_of_int n * 2 ^ log2_down n d" by simp
    then have "1 / 2 ^ log2_down n d \<le> real_of_int n / real_of_int d"
      using dpos by (simp add: field_simps)
    with False show ?thesis by (simp add: floor_log2_def power_int_minus_divide)
  qed
  show "real_of_int n / real_of_int d < 2 powi (floor_log2 n d + 1)"
  proof (cases "d \<le> n")
    case True
    from log2_up_spec[OF assms(2) True] have "n < d * 2 ^ Suc (log2_up n d)" by simp
    then have "real_of_int n < real_of_int (d * 2 ^ Suc (log2_up n d))" by (rule of_int_less_iff[THEN iffD2])
    then have "real_of_int n < 2 ^ Suc (log2_up n d) * real_of_int d" by (simp add: mult.commute)
    then have "real_of_int n / real_of_int d < 2 ^ Suc (log2_up n d)"
      using dpos by (simp add: pos_divide_less_eq)
    moreover have "(2::real) powi (int (log2_up n d) + 1) = 2 ^ Suc (log2_up n d)"
      by (simp add: power_int_add)
    ultimately show ?thesis using True by (simp add: floor_log2_def)
  next
    case False
    then have lt: "n < d" by simp
    from log2_down_spec[OF assms(1) lt] have "n * 2 ^ log2_down n d < 2 * d" by simp
    then have "real_of_int (n * 2 ^ log2_down n d) < real_of_int (2 * d)" by (rule of_int_less_iff[THEN iffD2])
    then have "real_of_int n * 2 ^ log2_down n d < 2 * real_of_int d" by simp
    then have "real_of_int n / real_of_int d < 2 / 2 ^ log2_down n d"
      using dpos by (simp add: field_simps)
    moreover have "(2::real) powi (- int (log2_down n d) + 1) = 2 / 2 ^ log2_down n d"
      by (simp add: power_int_diff)
    ultimately show ?thesis using False by (simp add: floor_log2_def)
  qed
qed

lemma round_half_even_err:
  assumes "0 < d"
  shows "\<bar>real_of_int (round_half_even n d) - real_of_int n / real_of_int d\<bar> \<le> 1 / 2"
proof -
  define q r where "q = n div d" and "r = n mod d"
  have n: "n = q * d + r" by (simp add: q_def r_def)
  have r: "0 \<le> r" "r < d" using assms by (simp_all add: r_def)
  have dpos: "0 < real_of_int d" using assms by simp
  have frac: "real_of_int n / real_of_int d = real_of_int q + real_of_int r / real_of_int d"
    using dpos by (simp add: n field_simps)
  have r0: "0 \<le> real_of_int r / real_of_int d" using r dpos by simp
  have r1: "real_of_int r / real_of_int d < 1" using r dpos by simp
  consider "2 * r < d" | "d < 2 * r" | "2 * r = d" by linarith
  then show ?thesis
  proof cases
    case 1
    then have "round_half_even n d = q" by (simp add: round_half_even_def q_def r_def Let_def)
    moreover from 1 have "real_of_int (2 * r) < real_of_int d" by (rule of_int_less_iff[THEN iffD2])
    then have "real_of_int r / real_of_int d < 1 / 2" using dpos by (simp add: field_simps)
    ultimately show ?thesis using r0 by (simp add: frac)
  next
    case 2
    then have "round_half_even n d = q + 1" by (simp add: round_half_even_def q_def r_def Let_def)
    moreover from 2 have "real_of_int d < real_of_int (2 * r)" by (rule of_int_less_iff[THEN iffD2])
    then have "1 / 2 < real_of_int r / real_of_int d" using dpos by (simp add: field_simps)
    ultimately show ?thesis using r1 by (simp add: frac)
  next
    case 3
    then have "real_of_int (2 * r) = real_of_int d" by simp
    then have h: "real_of_int r / real_of_int d = 1 / 2" using dpos by (simp add: field_simps)
    have "round_half_even n d = q \<or> round_half_even n d = q + 1"
      using 3 by (simp add: round_half_even_def q_def r_def Let_def)
    moreover have "real_of_int n / real_of_int d = real_of_int q + 1 / 2"
      by (simp only: frac h)
    ultimately show ?thesis by (elim disjE) simp_all
  qed
qed

lemma round_half_even_exact: "0 < d \<Longrightarrow> d dvd n \<Longrightarrow> round_half_even n d = n div d"
  by (simp add: round_half_even_def Let_def)

lemma round_double_val:
  assumes "0 < n" "0 < d"
  defines "u \<equiv> max (floor_log2 n d - 52) (- 1074)"
  shows "snd (round_double n d) = u"
    and "\<bar>double_val (round_double n d) - real_of_int n / real_of_int d\<bar> \<le> 2 powi u / 2"
proof -
  have dpos: "0 < real_of_int d" using assms by simp
  show "snd (round_double n d) = u" by (simp add: round_double_def Let_def u_def)
  obtain N D where ND: "round_double n d = (round_half_even N D, u)" "0 < D"
    "real_of_int N / real_of_int D = real_of_int n / real_of_int d / 2 powi u"
  proof (cases "0 \<le> u")
    case True
    have "round_double n d = (round_half_even n (d * 2 ^ nat u), u)"
      using True by (simp add: round_double_def Let_def u_def)
    moreover have "0 < d * 2 ^ nat u" using assms by simp
    moreover have "real_of_int n / real_of_int (d * 2 ^ nat u)
                   = real_of_int n / real_of_int d / 2 powi u"
      using True by (simp add: power_int_nonneg_exp)
    ultimately show ?thesis by (rule that)
  next
    case False
    have "round_double n d = (round_half_even (n * 2 ^ nat (- u)) d, u)"
      using False by (simp add: round_double_def Let_def u_def)
    moreover have "0 < d" by fact
    moreover have "(2::real) powi u = 1 / 2 ^ nat (- u)"
      using False by (simp add: power_int_def field_simps)
    then have "real_of_int (n * 2 ^ nat (- u)) / real_of_int d
               = real_of_int n / real_of_int d / 2 powi u"
      by simp
    ultimately show ?thesis by (rule that)
  qed
  define s :: real where "s = 2 powi u"
  have spos: "0 < s" by (simp add: s_def)
  let ?M = "real_of_int (round_half_even N D)"
  let ?q = "real_of_int n / real_of_int d"
  from round_half_even_err[OF ND(2), of N] have "\<bar>?M - ?q / s\<bar> \<le> 1 / 2"
    unfolding ND(3) s_def .
  then have "\<bar>?M - ?q / s\<bar> * s \<le> 1 / 2 * s"
    using spos by (intro mult_right_mono) simp_all
  moreover have "\<bar>?M - ?q / s\<bar> * s = \<bar>?M * s - ?q\<bar>"
  proof -
    have "\<bar>?M - ?q / s\<bar> * s = \<bar>(?M - ?q / s) * s\<bar>"
      using spos by (simp add: abs_mult)
    also have "(?M - ?q / s) * s = ?M * s - ?q"
      using spos by (simp add: field_simps)
    finally show ?thesis .
  qed
  ultimately have "\<bar>?M * s - ?q\<bar> \<le> 1 / 2 * s" by (simp only:)
  then have "\<bar>?M * s - ?q\<bar> \<le> s / 2" by simp
  moreover have "double_val (round_double n d) = ?M * s" by (simp add: double_val_def ND(1) s_def)
  ultimately show "\<bar>double_val (round_double n d) - ?q\<bar> \<le> 2 powi u / 2"
    by (simp only: s_def)
qed

lemma pow2_less_imp_less: "(2::real) powi a < 2 powi b \<Longrightarrow> a < b"
proof (rule ccontr)
  assume l: "(2::real) powi a < 2 powi b" and "\<not> a < b"
  then have "b \<le> a" by simp
  then have "(2::real) powi b \<le> 2 powi a" by (intro power_int_increasing) simp_all
  with l show False by simp
qed

lemma round_double_err:
  assumes "0 < n" "0 < d" and "- 1022 \<le> floor_log2 n d"
  shows "\<bar>double_val (round_double n d) - real_of_int n / real_of_int d\<bar>
         \<le> real_of_int n / real_of_int d / 2 ^ 53"
proof -
  let ?e = "floor_log2 n d"
  have u: "max (?e - 52) (- 1074) = ?e - 52" using assms(3) by simp
  from round_double_val(2)[OF assms(1,2)]
  have "\<bar>double_val (round_double n d) - real_of_int n / real_of_int d\<bar> \<le> 2 powi (?e - 52) / 2"
    by (simp only: u)
  also have "(2::real) powi (?e - 52) / 2 = 2 powi ?e / 2 ^ 53"
    by (simp add: power_int_diff)
  also have "\<dots> \<le> real_of_int n / real_of_int d / 2 ^ 53"
    using floor_log2_spec(1)[OF assms(1,2)] by (simp add: divide_right_mono)
  finally show ?thesis .
qed

lemma floor_log2_bounds:
  assumes "0 < n" "0 < d"
  shows "2 powi a \<le> real_of_int n / real_of_int d \<Longrightarrow> a \<le> floor_log2 n d"
    and "real_of_int n / real_of_int d < 2 powi b \<Longrightarrow> floor_log2 n d < b"
proof -
  assume "2 powi a \<le> real_of_int n / real_of_int d"
  with floor_log2_spec(2)[OF assms] have "(2::real) powi a < 2 powi (floor_log2 n d + 1)"
    by simp
  then have "a < floor_log2 n d + 1" by (rule pow2_less_imp_less)
  then show "a \<le> floor_log2 n d" by simp
next
  assume "real_of_int n / real_of_int d < 2 powi b"
  with floor_log2_spec(1)[OF assms] have "(2::real) powi floor_log2 n d < 2 powi b"
    by simp
  then show "floor_log2 n d < b" by (rule pow2_less_imp_less)
qed

lemma round_double_exact:
  assumes "0 < d" "1 \<le> k" "k < 2 ^ 53"
  shows "double_val (round_double (k * d) d) = real_of_int k"
proof -
  let ?e = "floor_log2 (k * d) d"
  have n: "0 < k * d" using assms by simp
  have q: "real_of_int (k * d) / real_of_int d = real_of_int k" using assms by simp
  have "(2::real) powi 0 \<le> real_of_int (k * d) / real_of_int d" using assms by (simp add: q)
  then have e0: "0 \<le> ?e" by (rule floor_log2_bounds(1)[OF n assms(1)])
  have "real_of_int k < real_of_int (2 ^ 53)" using assms(3) by (rule of_int_less_iff[THEN iffD2])
  then have "real_of_int (k * d) / real_of_int d < 2 powi 53" by (simp add: q)
  then have e1: "?e < 53" by (rule floor_log2_bounds(2)[OF n assms(1)])
  define j where "j = nat (52 - ?e)"
  have u: "max (?e - 52) (- 1074) = - int j" using e0 e1 by (simp add: j_def)
  show ?thesis
  proof (cases "j = 0")
    case True
    then have "round_double (k * d) d = (round_half_even (k * d) d, 0)"
      using u by (simp add: round_double_def Let_def)
    then show ?thesis using assms by (simp add: round_half_even_exact double_val_def)
  next
    case False
    then have "round_double (k * d) d = (round_half_even (k * d * 2 ^ j) d, - int j)"
      using u by (simp add: round_double_def Let_def)
    moreover have "round_half_even (k * d * 2 ^ j) d = k * 2 ^ j"
      using assms by (simp add: round_half_even_exact)
    ultimately show ?thesis by (simp add: double_val_def power_int_minus_divide)
  qed
qed

lemma np_ceil_int_val: "np_ceil_int x = \<lceil>double_val x\<rceil>"
proof (cases x)
  case (Pair m u)
  show ?thesis
  proof (cases "0 \<le> u")
    case True
    then have "double_val x = real_of_int (m * 2 ^ nat u)"
      by (simp add: double_val_def Pair power_int_nonneg_exp)
    then show ?thesis using True by (simp add: np_ceil_int_def Pair del: of_int_mult of_int_power)
  next
    case False
    then have "double_val x = real_of_int m / real_of_int (2 ^ nat (- u))"
      by (simp add: double_val_def Pair power_int_def field_simps)
    then show ?thesis using False
      by (simp add: np_ceil_int_def Pair ceiling_divide_eq_div del: of_int_power)
  qed
qed

lemma round_quot_pos: "0 < a \<Longrightarrow> 0 < b \<Longrightarrow> round_quot a b = round_double a b"
  by (simp add: round_quot_def split: prod.splits)

text \<open>A quotient of \<open>2^1024\<close> or more is too large for a float.\<close>

lemma round_half_even_ge: "n div d \<le> round_half_even n d"
  by (simp add: round_half_even_def Let_def)

lemma py_true_div_overflow:
  assumes b: "0 < b" and ab: "2 ^ 1024 * b \<le> a"
  shows "py_true_div a b = Inl OverflowError"
proof -
  have "1 * b \<le> 2 ^ 1024 * b" using b by (intro mult_right_mono) simp_all
  with ab have ba: "b \<le> a" by simp
  with b have a: "0 < a" by simp
  define L where "L = log2_up a b"
  from log2_up_spec[OF b ba] have lo: "b * 2 ^ L \<le> a" and hi: "a < b * 2 ^ Suc L"
    by (simp_all add: L_def)
  from ab hi have "2 ^ 1024 * b < 2 ^ Suc L * b" by (simp add: mult.commute)
  then have "(2::int) ^ 1024 < 2 ^ Suc L" using b by simp
  then have "1024 < Suc L" by (rule power_less_imp_less_exp[rotated]) simp
  then have L: "1024 \<le> L" by simp
  define k where "k = L - 52"
  have Lk: "L = k + 52" using L by (simp add: k_def)
  have e: "floor_log2 a b = int L" using ba by (simp add: floor_log2_def L_def)
  define D where "D = b * 2 ^ k"
  have D: "0 < D" using b by (simp add: D_def)
  have u: "max (int L - 52) (- 1074) = int k" using L by (simp add: k_def)
  have rd: "round_double a b = (round_half_even a D, int k)"
    by (simp add: round_double_def Let_def e u D_def)
  have "D * 2 ^ 52 \<le> a" using lo by (simp add: D_def Lk power_add mult.assoc)
  then have "(D * 2 ^ 52) div D \<le> a div D" using D by (intro zdiv_mono1) simp_all
  then have "2 ^ 52 \<le> a div D" using D by simp
  also have "\<dots> \<le> round_half_even a D" by (rule round_half_even_ge)
  finally have m: "2 ^ 52 \<le> round_half_even a D" .
  have "(2::int) ^ 1024 \<le> 2 ^ L" using L by (intro power_increasing) simp_all
  also have "(2::int) ^ L = 2 ^ 52 * 2 ^ k" by (simp only: Lk power_add mult.commute)
  also have "\<dots> \<le> round_half_even a D * 2 ^ k" using m by (intro mult_right_mono) simp_all
  finally have "2 ^ 1024 \<le> round_half_even a D * 2 ^ k" .
  moreover have "0 \<le> round_half_even a D" using m by simp
  ultimately have "overflows (round_double a b)" by (simp add: overflows_def rd)
  then show ?thesis using a b by (simp add: py_true_div_def round_quot_pos)
qed

text \<open>The two divisions, each correctly rounded, on operands below \<open>2^52\<close>.\<close>

lemma ceil_gap:
  fixes t c :: int
  assumes c: "0 < c" and nd: "\<not> c dvd t"
  defines "q \<equiv> real_of_int t / real_of_int c"
  shows "real_of_int \<lceil>q\<rceil> - 1 + 1 / real_of_int c \<le> q"
    and "q + 1 / real_of_int c \<le> real_of_int \<lceil>q\<rceil>"
proof -
  define d r where "d = t div c" and "r = t mod c"
  have "0 \<le> r" "r < c" "r \<noteq> 0" using c nd by (simp_all add: r_def dvd_eq_mod_eq_0)
  then have r: "1 \<le> r" "r + 1 \<le> c" by simp_all
  have rc: "0 < real_of_int c" using c by simp
  have "t = c * d + r" by (simp add: d_def r_def)
  then have "real_of_int t = real_of_int c * real_of_int d + real_of_int r"
    by (metis of_int_add of_int_mult)
  then have q: "q = real_of_int d + real_of_int r / real_of_int c"
    using rc by (simp add: q_def field_simps)
  define a b where "a = real_of_int r / real_of_int c" and "b = 1 / real_of_int c"
  have qa: "q = real_of_int d + a" by (simp only: q a_def)
  have "real_of_int 1 \<le> real_of_int r" using r(1) by (simp only: of_int_le_iff)
  then have r1: "b \<le> a"
    unfolding a_def b_def using rc by (intro divide_right_mono) simp_all
  have "real_of_int (r + 1) \<le> real_of_int c" using r(2) by (simp only: of_int_le_iff)
  then have "real_of_int (r + 1) / real_of_int c \<le> 1" using rc by simp
  then have r2: "a + b \<le> 1"
    by (simp add: add_divide_distrib a_def b_def)
  have dl: "0 < b" using rc by (simp add: b_def)
  have "real_of_int (d + 1) - 1 < q" "q \<le> real_of_int (d + 1)"
    using r1 r2 dl by (simp_all add: qa)
  then have "\<lceil>q\<rceil> = d + 1" by (rule ceiling_unique)
  then have "real_of_int \<lceil>q\<rceil> - 1 + b \<le> q" "q + b \<le> real_of_int \<lceil>q\<rceil>"
    using r1 r2 by (simp_all add: qa)
  then show "real_of_int \<lceil>q\<rceil> - 1 + 1 / real_of_int c \<le> q"
    and "q + 1 / real_of_int c \<le> real_of_int \<lceil>q\<rceil>"
    by (simp_all only: b_def)
qed

lemma default_batch_size_exact:
  assumes t: "1 \<le> t" "t < 2 ^ 52" and p: "1 \<le> p" "p < 2 ^ 52"
  shows "default_batch_size t p = Inr (- ((- t) div (p * 10)))"
proof -
  define T P where "T = real_of_int t" and "P = real_of_int p"
  define q1 where "q1 = T / P"
  have tp: "0 < t" "0 < p" using t p by simp_all
  have rt: "1 \<le> T" "T \<le> 2 ^ 52 - 1"
    using t by (simp_all flip: of_int_less_iff of_int_le_iff add: algebra_simps T_def)
  have rp: "1 \<le> P" "P \<le> 2 ^ 52 - 1"
    using p by (simp_all flip: of_int_less_iff of_int_le_iff add: algebra_simps P_def)
  have q1_lo: "1 / 2 ^ 52 \<le> q1" and q1_hi: "q1 < 2 ^ 52"
    using rt rp by (simp_all add: q1_def field_simps)
  text \<open>The first division.\<close>
  let ?e1 = "floor_log2 t p"
  have "(2::real) powi (- 52) \<le> real_of_int t / real_of_int p"
    using q1_lo by (simp add: q1_def T_def P_def power_int_minus_divide)
  then have e1_lo: "- 52 \<le> ?e1" by (rule floor_log2_bounds(1)[OF tp])
  have "real_of_int t / real_of_int p < 2 powi 52"
    using q1_hi by (simp add: q1_def T_def P_def)
  then have e1_hi: "?e1 < 52" by (rule floor_log2_bounds(2)[OF tp])
  define k where "k = nat (52 - ?e1)"
  have u1: "max (?e1 - 52) (- 1074) = - int k" and kpos: "0 < k"
    using e1_lo e1_hi by (simp_all add: k_def)
  obtain M1 where x1: "round_double t p = (M1, - int k)"
    using round_double_val(1)[OF tp] u1 by (cases "round_double t p") simp
  define v1 where "v1 = double_val (round_double t p)"
  have v1M: "v1 = real_of_int M1 / 2 ^ k"
    by (simp add: v1_def x1 double_val_def power_int_minus_divide)
  have err1: "\<bar>v1 - q1\<bar> \<le> q1 / 2 ^ 53"
    unfolding v1_def q1_def T_def P_def using e1_lo by (intro round_double_err tp) simp
  have err1': "v1 - q1 \<le> q1 / 2 ^ 53" "q1 - v1 \<le> q1 / 2 ^ 53"
    using err1 unfolding abs_le_iff by linarith+
  have v1_pos: "0 < v1" using err1' q1_lo by simp
  have M1_pos: "0 < M1"
  proof -
    from v1_pos have "0 < real_of_int M1" by (simp add: v1M zero_less_divide_iff)
    then show ?thesis by simp
  qed
  have div1: "py_true_div t p = Inr (M1, - int k)"
    using tp kpos by (simp add: py_true_div_def round_quot_pos x1 overflows_def)
  text \<open>The second division.\<close>
  let ?d2 = "10 * 2 ^ k :: int"
  have d2: "0 < ?d2" by simp
  have div2: "float_div_int (M1, - int k) 10 = round_double M1 ?d2"
    using kpos M1_pos by (simp add: float_div_int_def round_quot_pos)
  define y where "y = real_of_int M1 / real_of_int ?d2"
  have y: "y = v1 / 10" by (simp add: y_def v1M)
  define v2 where "v2 = double_val (round_double M1 ?d2)"
  have res: "default_batch_size t p = Inr \<lceil>v2\<rceil>"
    by (simp add: default_batch_size_def div1 div2 np_ceil_int_val v2_def)
  have y_lo: "1 / 2 ^ 57 \<le> y" using err1' q1_lo by (simp add: y)
  have "(2::real) powi (- 57) \<le> real_of_int M1 / real_of_int ?d2"
    using y_lo by (simp add: y_def power_int_minus_divide)
  then have e2_lo: "- 57 \<le> floor_log2 M1 ?d2" by (rule floor_log2_bounds(1)[OF M1_pos d2])
  have err2: "\<bar>v2 - y\<bar> \<le> y / 2 ^ 53"
    unfolding v2_def y_def using e2_lo by (intro round_double_err M1_pos d2) simp
  have err2': "v2 - y \<le> y / 2 ^ 53" "y - v2 \<le> y / 2 ^ 53"
    using err2 unfolding abs_le_iff by linarith+
  text \<open>The exact quotient and its ceiling.\<close>
  define m where "m = - ((- t) div (p * 10))"
  define q where "q = T / (10 * P)"
  have m: "m = \<lceil>q\<rceil>"
  proof -
    have "q = real_of_int t / real_of_int (p * 10)" by (simp add: q_def T_def P_def mult.commute)
    then show ?thesis by (simp only: m_def ceiling_divide_eq_div)
  qed
  have qq: "q1 = 10 * q" using rp by (simp add: q1_def q_def)
  have "\<lceil>v2\<rceil> = m"
  proof (cases "p * 10 dvd t")
    case True
    then obtain j where j: "t = p * 10 * j" by (auto simp: dvd_def)
    with tp have jpos: "1 \<le> j" by (simp add: zero_less_mult_iff) 
    have "10 * j \<le> t" using j p jpos by (simp add: mult_le_cancel_right)
    then have j53: "10 * j < 2 ^ 53" using t by simp
    have "t = (10 * j) * p" by (simp add: j)
    then have "v1 = real_of_int (10 * j)"
      unfolding v1_def using round_double_exact[OF tp(2), of "10 * j"] jpos j53 by simp
    then have "real_of_int M1 = real_of_int (10 * j * 2 ^ k)" by (simp add: v1M field_simps)
    then have "M1 = 10 * j * 2 ^ k" by (simp only: of_int_eq_iff)
    then have "M1 = j * ?d2" by simp
    then have "v2 = real_of_int j"
      unfolding v2_def using round_double_exact[OF d2, of j] jpos j53 by simp
    moreover have "m = j"
    proof -
      have "- t = (p * 10) * (- j)" by (simp add: j)
      moreover have "p * 10 \<noteq> 0" using tp by simp
      ultimately have "(- t) div (p * 10) = - j"
        using nonzero_mult_div_cancel_left[of "p * 10" "- j"] by simp
      then show ?thesis by (simp only: m_def minus_minus)
    qed
    ultimately show ?thesis by simp
  next
    case False
    define dl where "dl = 1 / (10 * P)"
    have dl: "0 < dl" using rp by (simp add: dl_def)
    have qT: "q = T * dl" by (simp add: q_def dl_def)
    have q_le: "q \<le> (2 ^ 52 - 1) * dl" unfolding qT using rt dl by (intro mult_right_mono) simp_all
    have qc: "q = real_of_int t / real_of_int (p * 10)"
      by (simp add: q_def T_def P_def mult.commute)
    have dlc: "dl = 1 / real_of_int (p * 10)" by (simp add: dl_def P_def mult.commute)
    have c0: "0 < p * 10" using tp by simp
    have up: "q + dl \<le> real_of_int m" and lo: "real_of_int m - 1 + dl \<le> q"
      unfolding m qc dlc using ceil_gap[OF c0 False] by simp_all
    have "v2 \<le> real_of_int m" and "real_of_int m - 1 < v2"
      using err1' err2' y qq q_le up lo dl by simp_all
    then show ?thesis by (intro ceiling_unique) simp_all
  qed
  with res show ?thesis by (simp add: m_def)
qed

lemma ceil_div10: "\<lceil>real_of_int t / real_of_int p / 10\<rceil> = - ((- t) div (p * 10))"
proof -
  have "real_of_int t / real_of_int p / 10 = - (real_of_int (- t) / real_of_int (p * 10))"
    by simp
  then have "\<lceil>real_of_int t / real_of_int p / 10\<rceil> = - \<lfloor>real_of_int (- t) / real_of_int (p * 10)\<rfloor>"
    by (simp only: ceiling_def minus_minus)
  then show ?thesis by (simp only: floor_divide_of_int_eq)
qed

lemma batch_bounds:
  fixes t p :: int
  assumes "1 \<le> t" "1 \<le> p"
  defines "b \<equiv> - ((- t) div (p * 10))"
  shows "1 \<le> b" and "t \<le> b * (p * 10)"
proof -
  have pos: "0 < p * 10" using assms by simp
  have "(- t) div (p * 10) < 0"
    using assms pos by (simp add: div_neg_pos_less0)
  then show "1 \<le> b" by (simp add: b_def)
  have "- t = (p * 10) * ((- t) div (p * 10)) + (- t) mod (p * 10)" by simp
  moreover have "0 \<le> (- t) mod (p * 10)" using pos by simp
  ultimately have "(p * 10) * ((- t) div (p * 10)) \<le> - t" by linarith
  then show "t \<le> b * (p * 10)" by (simp add: b_def mult.commute)
qed

lemma concat_ranges:
  fixes b t :: int
  assumes "0 \<le> b" "0 \<le> t"
  shows "concat (map (\<lambda>i. py_range2 (int i * b) (min (int i * b + b) t)) [0..<m])
         = [0 .. min (int m * b) t - 1]"
proof (induction m)
  case 0
  then show ?case using assms by simp
next
  case (Suc m)
  let ?a = "int m * b"
  have step: "[0 .. min ?a t - 1] @ [?a .. min (?a + b) t - 1] = [0 .. min (?a + b) t - 1]"
  proof (cases "?a < min (?a + b) t")
    case True
    then have "min ?a t = ?a" by simp
    moreover have "[0 .. min (?a + b) t - 1] = [0 .. ?a - 1] @ [?a .. min (?a + b) t - 1]"
      using True assms by (intro upto_split1) auto
    ultimately show ?thesis by simp
  next
    case False
    then have "min (?a + b) t = min ?a t" using assms by auto
    then show ?thesis by simp
  qed
  have "int (Suc m) * b = ?a + b" by (simp add: algebra_simps)
  with Suc step show ?case by (simp add: py_range2_def)
qed

lemma range_len_pos:
  fixes b t :: int
  assumes "1 \<le> b" "1 \<le> t"
  shows "int (range_len 0 t b) = (t - 1) div b + 1"
    and "t \<le> int (range_len 0 t b) * b"
    and "(int (range_len 0 t b) - 1) * b < t"
proof -
  have nn: "0 \<le> (t - 1) div b" using assms by (simp add: pos_imp_zdiv_nonneg_iff)
  show n: "int (range_len 0 t b) = (t - 1) div b + 1"
    using assms nn by (simp add: range_len_def)
  have eq: "t - 1 = b * ((t - 1) div b) + (t - 1) mod b" by simp
  have "(t - 1) mod b < b" using assms by simp
  with eq have "t - 1 < b * ((t - 1) div b) + b" by linarith
  then show "t \<le> int (range_len 0 t b) * b" by (simp add: n algebra_simps)
  have "0 \<le> (t - 1) mod b" using assms by simp
  with eq have "b * ((t - 1) div b) \<le> t - 1" by linarith
  then show "(int (range_len 0 t b) - 1) * b < t" by (simp add: n algebra_simps)
qed

lemma length_py_range2: "length (py_range2 a b) = nat (b - a)"
  by (simp add: py_range2_def)

lemma idss_with_batch:
  assumes "default_batch_size tot (pool_size self) = Inr b" and "1 \<le> b"
  shows "idss self tot None =
         Inr (map (\<lambda>i. py_range2 (int i * b) (min (int i * b + b) tot)) [0..<range_len 0 tot b])"
proof -
  have r: "py_range 0 tot b = Inr (map (\<lambda>i. int i * b) [0..<range_len 0 tot b])"
    using assms(2) by (simp add: py_range_def)
  show ?thesis by (simp add: idss_def assms(1) r comp_def)
qed

lemma idss_default_unfold:
  assumes "1 \<le> tot" "tot < 2 ^ 52" "1 \<le> pool_size self" "pool_size self < 2 ^ 52"
  defines "b \<equiv> - ((- tot) div (pool_size self * 10))"
  shows "idss self tot None =
         Inr (map (\<lambda>i. py_range2 (int i * b) (min (int i * b + b) tot)) [0..<range_len 0 tot b])"
proof -
  have b1: "1 \<le> b" unfolding b_def using assms(1,3) by (rule batch_bounds(1))
  have d: "default_batch_size tot (pool_size self) = Inr b"
    unfolding b_def using assms(1-4) by (rule default_batch_size_exact)
  from d b1 show ?thesis by (rule idss_with_batch)
qed

lemma default_batch_size_zero: "p \<noteq> 0 \<Longrightarrow> default_batch_size 0 p = Inr 0"
  by (simp add: default_batch_size_def py_true_div_def round_quot_def overflows_def
      float_div_int_def np_ceil_int_def)

lemmas float_eval =
  default_batch_size_def py_true_div_def round_quot_def round_double_def floor_log2_def
  log2_up.simps log2_down.simps round_half_even_def overflows_def float_div_int_def
  np_ceil_int_def Let_def

text \<open>
  C8 (amended): for every \<open>total\<close> and every \<open>pool_size\<close> from \<open>1\<close> to below \<open>2^52\<close>,
  \<open>idss(total)\<close> yields a finite list of ranges; the batch size \<open>b\<close> computed in floating point
  is exactly \<open>ceil(total / pool_size / 10)\<close> and at least \<open>1\<close>; range number \<open>i\<close> is the
  non-empty interval from \<open>i * b\<close> to \<open>min(i * b + b, total) - 1\<close>; laid end to end the ranges
  are exactly \<open>0, ..., total - 1\<close> in increasing order (so they are consecutive and disjoint);
  every range but the last has \<open>b\<close> elements; there are at most \<open>10 * pool_size\<close> ranges; and
  the result depends on \<open>pool_size\<close> and \<open>total\<close> only, so calling \<open>idss\<close> again restarts the same
  sequence.
\<close>

theorem idss_partition:
  assumes "1 \<le> tot" "tot < 2 ^ 52" and "1 \<le> pool_size self" "pool_size self < 2 ^ 52"
  shows "\<exists>rs b. idss self tot None = Inr rs
           \<and> default_batch_size tot (pool_size self) = Inr b
           \<and> b = \<lceil>real_of_int tot / real_of_int (pool_size self) / 10\<rceil> \<and> 1 \<le> b
           \<and> concat rs = [0 .. tot - 1]
           \<and> (\<forall>i < length rs. rs ! i = [int i * b .. min (int i * b + b) tot - 1] \<and> rs ! i \<noteq> [])
           \<and> (\<forall>i. Suc i < length rs \<longrightarrow> length (rs ! i) = nat b)
           \<and> int (length rs) \<le> 10 * pool_size self
           \<and> (\<forall>other. pool_size other = pool_size self \<longrightarrow> idss other tot None = Inr rs)"
proof -
  define b where "b = - ((- tot) div (pool_size self * 10))"
  define n where "n = range_len 0 tot b"
  define rs where "rs = map (\<lambda>i. py_range2 (int i * b) (min (int i * b + b) tot)) [0..<n]"
  have b1: "1 \<le> b" unfolding b_def using assms(1,3) by (rule batch_bounds(1))
  have bt: "tot \<le> b * (pool_size self * 10)"
    unfolding b_def using assms(1,3) by (rule batch_bounds(2))
  have n_hi: "tot \<le> int n * b" and n_lo: "(int n - 1) * b < tot"
    unfolding n_def using b1 assms(1) by (rule range_len_pos(2), rule range_len_pos(3))
  have res: "idss self tot None = Inr rs"
    unfolding rs_def n_def b_def using assms by (rule idss_default_unfold)
  have dbs: "default_batch_size tot (pool_size self) = Inr b"
    unfolding b_def using assms by (rule default_batch_size_exact)
  have bc: "b = \<lceil>real_of_int tot / real_of_int (pool_size self) / 10\<rceil>"
    unfolding b_def by (rule ceil_div10[symmetric])
  have cc: "concat rs = [0 .. tot - 1]"
  proof -
    have "concat rs = [0 .. min (int n * b) tot - 1]"
      unfolding rs_def using b1 assms(1) by (intro concat_ranges) auto
    with n_hi show ?thesis by (simp add: min_def)
  qed
  have len: "length rs = n" by (simp add: rs_def)
  have lt: "int i * b < tot" if "i < n" for i
  proof -
    from that have "int i \<le> int n - 1" by simp
    with b1 have "int i * b \<le> (int n - 1) * b" by (intro mult_right_mono) auto
    with n_lo show ?thesis by linarith
  qed
  have each: "\<forall>i < length rs. rs ! i = [int i * b .. min (int i * b + b) tot - 1] \<and> rs ! i \<noteq> []"
  proof (intro allI impI)
    fix i assume "i < length rs"
    then have i: "i < n" by (simp add: len)
    have eq: "rs ! i = [int i * b .. min (int i * b + b) tot - 1]"
      using i by (simp add: rs_def py_range2_def)
    have "[int i * b .. min (int i * b + b) tot - 1] \<noteq> []"
      using lt[OF i] b1 by (auto simp: min_def)
    with eq show "rs ! i = [int i * b .. min (int i * b + b) tot - 1] \<and> rs ! i \<noteq> []"
      by simp
  qed
  have full: "\<forall>i. Suc i < length rs \<longrightarrow> length (rs ! i) = nat b"
  proof (intro allI impI)
    fix i assume "Suc i < length rs"
    then have si: "Suc i < n" by (simp add: len)
    from lt[OF si] have "int i * b + b < tot" by (simp add: algebra_simps)
    then show "length (rs ! i) = nat b"
      using si by (simp add: rs_def py_range2_def)
  qed
  have cnt: "int (length rs) \<le> 10 * pool_size self"
  proof (rule ccontr)
    assume "\<not> int (length rs) \<le> 10 * pool_size self"
    then have "10 * pool_size self \<le> int n - 1" by (simp add: len)
    with b1 have "(10 * pool_size self) * b \<le> (int n - 1) * b" by (intro mult_right_mono) auto
    with n_lo bt show False by (simp add: mult.commute)
  qed
  have same: "\<forall>other. pool_size other = pool_size self \<longrightarrow> idss other tot None = Inr rs"
    using res by (simp add: idss_def)
  from res dbs bc b1 cc each full cnt same show ?thesis by blast
qed

theorem idss_partition_witness:
  "1 \<le> (100::int) \<and> (100::int) < 2 ^ 52
   \<and> 1 \<le> pool_size (pooled_caller_init 4 None 1)
   \<and> pool_size (pooled_caller_init 4 None 1) < 2 ^ 52
   \<and> default_batch_size 100 (pool_size (pooled_caller_init 4 None 1)) = Inr 4
   \<and> (\<exists>rs. idss (pooled_caller_init 4 None 1) 100 None = Inr rs
          \<and> length rs = 25
          \<and> rs ! 0 = [0, 1, 2, 3] \<and> rs ! 1 = [4, 5, 6, 7] \<and> rs ! 24 = [96, 97, 98, 99]
          \<and> concat rs = [0 .. 99])"
proof -
  let ?P = "pooled_caller_init 4 None 1"
  have p: "pool_size ?P = 3" by (simp add: pooled_caller_init_def)
  have h1: "1 \<le> (100::int)" and h2: "(100::int) < 2 ^ 52" by simp_all
  have h3: "1 \<le> pool_size ?P" and h4: "pool_size ?P < 2 ^ 52" by (simp_all add: p)
  from idss_partition[OF h1 h2 h3 h4] obtain rs b where
    r: "idss ?P 100 None = Inr rs"
    and d: "default_batch_size 100 (pool_size ?P) = Inr b"
    and b: "b = \<lceil>real_of_int 100 / real_of_int (pool_size ?P) / 10\<rceil>"
    and c: "concat rs = [0 .. 100 - 1]"
    and e: "\<forall>i < length rs. rs ! i = [int i * b .. min (int i * b + b) 100 - 1] \<and> rs ! i \<noteq> []"
    by blast
  have b4: "b = 4" unfolding b p by simp
  have "idss ?P 100 None
        = Inr (map (\<lambda>i. py_range2 (int i * 4) (min (int i * 4 + 4) 100)) [0..<range_len 0 100 4])"
    using idss_with_batch[OF d[unfolded b4]] by simp
  with r have len: "length rs = 25" by (auto simp: range_len_def)
  have u: "[0 .. 3] = [0, 1, 2, (3::int)]" "[4 .. 7] = [4, 5, 6, (7::int)]"
    "[96 .. 99] = [96, 97, 98, (99::int)]"
    by (simp_all add: upto.simps)
  from e len have "rs ! 0 = [0, 1, 2, 3]" "rs ! 1 = [4, 5, 6, 7]" "rs ! 24 = [96, 97, 98, 99]"
    by (simp_all add: b4 u)
  with r d c len h1 h2 h3 h4 show ?thesis by (simp add: b4)
qed

text \<open>
  C8 as stated (every \<open>total \<ge> 1\<close>, whatever the pool) fails on a pool built with the
  default size on a host with one processor: \<open>pool_size\<close> is \<open>1 * 3 // 4 = 0\<close>, and \<open>idss(5)\<close>
  raises \<open>ZeroDivisionError\<close> instead of yielding ranges. It also fails on the size of the
  ranges for a large \<open>total\<close>: with \<open>pool_size = 1\<close> and \<open>total = 10 * 2^53 + 1\<close> the quotient
  \<open>total / 1\<close> rounds down to \<open>10 * 2^53\<close>, the batch size is \<open>2^53\<close> where
  \<open>ceil(total / pool_size / 10)\<close> is \<open>2^53 + 1\<close>, and eleven ranges are produced.
\<close>

theorem idss_partition_counterexample:
  "pool_size (pooled_caller_init 1 None 1) = 0
   \<and> idss (pooled_caller_init 1 None 1) 5 None = Inl ZeroDivisionError
   \<and> pool_size (pooled_caller_init 4 (Some 1) 1) = 1
   \<and> \<lceil>real_of_int 90071992547409921 / real_of_int 1 / 10\<rceil> = (9007199254740993::int)
   \<and> default_batch_size 90071992547409921 1 = Inr 9007199254740992
   \<and> (\<exists>rs. idss (pooled_caller_init 4 (Some 1) 1) 90071992547409921 None = Inr rs
          \<and> length rs = 11 \<and> length (rs ! 0) = 9007199254740992)"
proof -
  let ?P = "pooled_caller_init 4 (Some 1) 1"
  have p: "pool_size ?P = 1" by (simp add: pooled_caller_init_def)
  have z: "pool_size (pooled_caller_init 1 None 1) = 0"
    "idss (pooled_caller_init 1 None 1) 5 None = Inl ZeroDivisionError"
    by (simp_all add: pooled_caller_init_def idss_def default_batch_size_def py_true_div_def)
  have c: "\<lceil>real_of_int 90071992547409921 / real_of_int 1 / 10\<rceil> = (9007199254740993::int)"
    by (simp add: ceil_div10)
  have d: "default_batch_size 90071992547409921 1 = Inr 9007199254740992"
    by (simp add: float_eval)
  have "idss ?P 90071992547409921 None
        = Inr (map (\<lambda>i. py_range2 (int i * 9007199254740992)
                         (min (int i * 9007199254740992 + 9007199254740992) 90071992547409921))
                 [0..<range_len 0 90071992547409921 9007199254740992])"
    using d by (intro idss_with_batch) (simp_all add: p)
  moreover have "range_len 0 90071992547409921 9007199254740992 = 11"
    by (simp add: range_len_def)
  ultimately have "\<exists>rs. idss ?P 90071992547409921 None = Inr rs
          \<and> length rs = 11 \<and> length (rs ! 0) = 9007199254740992"
    by (simp add: length_py_range2 nth_map del: upt_Suc)
  with z p c d show ?thesis by simp
qed

text \<open>
  C10 (amended): on a pool with a non-zero \<open>pool_size\<close>, \<open>total = 0\<close> gives the default batch
  size \<open>0\<close> and the call \<open>idss(0)\<close> raises \<open>ValueError\<close> (a range with zero step, evaluated
  when the generator is built); on a pool with \<open>pool_size\<close> from \<open>1\<close> to below \<open>2^52\<close>, every
  \<open>total\<close> from \<open>1\<close> to below \<open>2^52\<close> gives a batch size of at least \<open>1\<close> and \<open>idss(total)\<close>
  returns its ranges without a fault.
\<close>

theorem idss_total_precondition:
  "(pool_size self \<noteq> 0 \<longrightarrow>
      default_batch_size 0 (pool_size self) = Inr 0
      \<and> idss self 0 None = Inl (ValueError ''range() arg 3 must not be zero''))
   \<and> (1 \<le> tot \<and> tot < 2 ^ 52 \<and> 1 \<le> pool_size self \<and> pool_size self < 2 ^ 52 \<longrightarrow>
      (\<exists>b rs. default_batch_size tot (pool_size self) = Inr b \<and> 1 \<le> b
              \<and> idss self tot None = Inr rs))"
proof (intro conjI impI)
  assume nz: "pool_size self \<noteq> 0"
  then show d0: "default_batch_size 0 (pool_size self) = Inr 0"
    by (rule default_batch_size_zero)
  show "idss self 0 None = Inl (ValueError ''range() arg 3 must not be zero'')"
    by (simp add: idss_def d0 py_range_def)
next
  assume h: "1 \<le> tot \<and> tot < 2 ^ 52 \<and> 1 \<le> pool_size self \<and> pool_size self < 2 ^ 52"
  then have t: "1 \<le> tot" "tot < 2 ^ 52" and p: "1 \<le> pool_size self" "pool_size self < 2 ^ 52"
    by simp_all
  have "default_batch_size tot (pool_size self) = Inr (- ((- tot) div (pool_size self * 10)))"
    using t p by (rule default_batch_size_exact)
  moreover have "1 \<le> - ((- tot) div (pool_size self * 10))"
    using t(1) p(1) by (rule batch_bounds(1))
  moreover have "\<exists>rs. idss self tot None = Inr rs"
    using idss_default_unfold[OF t p] by simp
  ultimately show "\<exists>b rs. default_batch_size tot (pool_size self) = Inr b \<and> 1 \<le> b
      \<and> idss self tot None = Inr rs"
    by blast
qed

theorem idss_total_precondition_witness:
  "pool_size (pooled_caller_init 4 None 1) \<noteq> 0
   \<and> default_batch_size 0 (pool_size (pooled_caller_init 4 None 1)) = Inr 0
   \<and> idss (pooled_caller_init 4 None 1) 0 None
       = Inl (ValueError ''range() arg 3 must not be zero'')
   \<and> 1 \<le> (50::int) \<and> (50::int) < 2 ^ 52
   \<and> 1 \<le> pool_size (pooled_caller_init 4 None 1)
   \<and> pool_size (pooled_caller_init 4 None 1) < 2 ^ 52
   \<and> (\<exists>b rs. default_batch_size 50 (pool_size (pooled_caller_init 4 None 1)) = Inr b \<and> 1 \<le> b
          \<and> idss (pooled_caller_init 4 None 1) 50 None = Inr rs)"
proof -
  have p: "pool_size (pooled_caller_init 4 None 1) = 3"
    by (simp add: pooled_caller_init_def)
  show ?thesis
    using idss_total_precondition[of "pooled_caller_init 4 None 1" 50] by (simp add: p)
qed

text \<open>
  C10 as stated fails on the same pool as C8: with \<open>pool_size = 0\<close> and \<open>total = 1\<close> no batch
  size is computed at all, and the call faults. It also fails for a \<open>total\<close> beyond the range
  of a float: with \<open>pool_size = 1\<close>, \<open>idss(10 ** 400)\<close> raises \<open>OverflowError\<close> in the division.
\<close>

theorem idss_total_precondition_counterexample:
  "(1::int) \<le> 1
   \<and> default_batch_size 1 (pool_size (pooled_caller_init 1 None 1)) = Inl ZeroDivisionError
   \<and> idss (pooled_caller_init 1 None 1) 1 None = Inl ZeroDivisionError
   \<and> pool_size (pooled_caller_init 4 (Some 1) 1) = 1
   \<and> (1::int) \<le> 10 ^ 400
   \<and> default_batch_size (10 ^ 400) (pool_size (pooled_caller_init 4 (Some 1) 1))
       = Inl OverflowError
   \<and> idss (pooled_caller_init 4 (Some 1) 1) (10 ^ 400) None = Inl OverflowError"
proof -
  have "py_true_div (10 ^ 400) 1 = Inl OverflowError"
    by (rule py_true_div_overflow) simp_all
  then show ?thesis
    by (simp add: pooled_caller_init_def idss_def default_batch_size_def py_true_div_def)
qed

section \<open>Command normalisation: proofs\<close>

lemma lex_word_plain:
  assumes "\<forall>c \<in> set w. c \<notin> whitespace \<and> c \<notin> quotes \<and> c \<notin> escape"
  shows "lex Word es q tok (w @ rest) = lex Word es q (tok @ w) rest"
  using assms by (induction w arbitrary: tok) simp_all

lemma lex_blank_plain:
  assumes "plain t"
  shows "lex Blank es q tok (t @ rest) = lex Word es q t rest"
proof -
  from assms obtain c w where t: "t = c # w" by (cases t) (auto simp: plain_def)
  with assms have c: "c \<notin> whitespace" "c \<notin> quotes" "c \<notin> escape"
    and w: "\<forall>c \<in> set w. c \<notin> whitespace \<and> c \<notin> quotes \<and> c \<notin> escape"
    by (auto simp: plain_def)
  have "lex Blank es q tok (t @ rest) = lex Word es q [c] (w @ rest)"
    using c by (simp add: t)
  also have "\<dots> = lex Word es q ([c] @ w) rest" using w by (rule lex_word_plain)
  finally show ?thesis by (simp add: t)
qed

lemma shlex_split_join_plain:
  assumes "\<forall>t \<in> set ts. plain t"
  shows "shlex_split (join_spaces ts) = Inr ts"
  unfolding shlex_split_def using assms
proof (induction ts rule: join_spaces.induct)
  case 1
  then show ?case by simp
next
  case (2 t)
  then have "plain t" by simp
  from lex_blank_plain[OF this, of Blank False "[]" "[]"] \<open>plain t\<close>
  show ?case by (simp add: plain_def)
next
  case (3 t u ts)
  then have t: "plain t" and ih: "lex Blank Blank False [] (join_spaces (u # ts)) = Inr (u # ts)"
    by simp_all
  have "lex Blank Blank False [] (join_spaces (t # u # ts))
        = lex Word Blank False t (CHR '' '' # join_spaces (u # ts))"
    using lex_blank_plain[OF t] by simp
  also have "\<dots> = emit t (lex Blank Blank False [] (join_spaces (u # ts)))"
    using t by (simp add: plain_def whitespace_def)
  finally show ?case by (simp add: ih emit_def)
qed

text \<open>
  C6 (amended): for every argument list whose tokens are plain (not empty, no whitespace,
  no quote, no backslash), joining with spaces and splitting again gives the same tokens,
  and the display form of the joined string is the joined string; \<open>cmd_for_exec\<close> with
  \<open>shell=False\<close> leaves every token list as it is, so normalising its own output changes
  nothing (and, being a function, it gives the same result each time).
\<close>

theorem normalisation_roundtrip:
  "((\<forall>t \<in> set ts. plain t) \<longrightarrow>
       shlex_split (join_spaces ts) = Inr ts
       \<and> cmd_for_disp (CmdStr (join_spaces ts)) = cmd_for_disp (CmdList ts))
   \<and> cmd_for_exec (CmdList ts) False = Inr (CmdList ts)
   \<and> (cmd_for_exec c False = Inr c' \<longrightarrow> cmd_for_exec c' False = Inr c')"
proof (intro conjI impI)
  assume p: "\<forall>t \<in> set ts. plain t"
  then show s: "shlex_split (join_spaces ts) = Inr ts" by (rule shlex_split_join_plain)
  show "cmd_for_disp (CmdStr (join_spaces ts)) = cmd_for_disp (CmdList ts)"
    by (simp add: cmd_for_disp_def s)
next
  show "cmd_for_exec (CmdList ts) False = Inr (CmdList ts)"
    by (simp add: cmd_for_exec_def)
next
  assume "cmd_for_exec c False = Inr c'"
  then show "cmd_for_exec c' False = Inr c'"
    by (cases c) (auto simp: cmd_for_exec_def split: sum.splits)
qed

theorem normalisation_roundtrip_witness:
  "plain ''ls'' \<and> plain ''-l'' \<and> plain ''/tmp''
   \<and> shlex_split (join_spaces [''ls'', ''-l'', ''/tmp'']) = Inr [''ls'', ''-l'', ''/tmp'']
   \<and> cmd_for_disp (CmdStr ''ls -l /tmp'') = Inr (DispStr ''ls -l /tmp'')
   \<and> cmd_for_exec (CmdStr ''ls   -l /tmp'') False = Inr (CmdList [''ls'', ''-l'', ''/tmp''])
   \<and> cmd_for_exec (CmdList [''ls'', ''-l'', ''/tmp'']) False = Inr (CmdList [''ls'', ''-l'', ''/tmp''])"
proof -
  have p: "\<forall>t \<in> set [''ls'', ''-l'', ''/tmp'']. plain t"
    by (simp add: plain_def whitespace_def quotes_def escape_def)
  have e: "cmd_for_exec (CmdStr ''ls   -l /tmp'') False = Inr (CmdList [''ls'', ''-l'', ''/tmp''])"
    by (simp add: cmd_for_exec_def shlex_split_def whitespace_def quotes_def escape_def emit_def)
  from normalisation_roundtrip[of "[''ls'', ''-l'', ''/tmp'']" "CmdStr ''ls   -l /tmp''"
      "CmdList [''ls'', ''-l'', ''/tmp'']"] p e
  show ?thesis by (simp add: cmd_for_disp_def)
qed

text \<open>
  C6 as stated (every token list) fails: \<open>echo "hello world"\<close> is tokenized into \<open>echo\<close> and
  \<open>hello world\<close>; the display string of these two tokens is \<open>echo hello world\<close>, and
  splitting that gives three tokens.
\<close>

theorem normalisation_roundtrip_counterexample:
  "cmd_for_exec (CmdStr (''echo '' @ [CHR 0x22] @ ''hello world'' @ [CHR 0x22])) False
     = Inr (CmdList [''echo'', ''hello world''])
   \<and> cmd_for_disp (CmdList [''echo'', ''hello world'']) = Inr (DispStr ''echo hello world'')
   \<and> shlex_split (join_spaces [''echo'', ''hello world'']) = Inr [''echo'', ''hello'', ''world'']
   \<and> shlex_split (join_spaces [''echo'', ''hello world'']) \<noteq> Inr [''echo'', ''hello world'']"
  by (simp add: cmd_for_exec_def cmd_for_disp_def shlex_split_def whitespace_def quotes_def
      escape_def escapedquotes_def emit_def)

section \<open>The single-command wrapper: proofs\<close>

lemma read_lines_decoded: "read_lines (map Inr ls) = Inr ls"
  by (induction ls) simp_all

text \<open>
  C7 (amended): let the command normalise to the argument list \<open>args\<close>, let the process start, and
  let every line of its output decode to text. Then \<open>run(cmd, check=True)\<close> raises if and
  only if the return code is not zero; the fault is a \<open>RuntimeError\<close> whose message ends
  with the command line (the arguments joined with spaces); and when the return code is
  zero, or \<open>check\<close> is off, \<open>run\<close> returns the record of the command string, the pid, the
  output lines, the return code and the two time stamps.
\<close>

theorem run_check:
  assumes "cmd_for_exec c False = Inr (CmdList args)"
    and "popen env args = Inr p"
    and "c_stdout p = map Inr ls"
  shows "(isl (run env c True verb) \<longleftrightarrow> c_returncode p \<noteq> 0)
    \<and> (c_returncode p \<noteq> 0 \<longrightarrow>
          run env c True verb
          = Inl (RuntimeError (''Error occurs when executing the following command (returncode=''
                @ str_int (c_returncode p) @ ''):'' @ [CHR 0x0A] @ join_spaces args)))
    \<and> (c_returncode p = 0 \<or> \<not> check \<longrightarrow>
          run env c check verb
          = Inr \<lparr>res_cmd = join_spaces args, res_pid = c_pid p, res_output = ls,
                 res_start_time = start_clock env, res_returncode = c_returncode p,
                 res_stop_time = stop_clock env\<rparr>)"
proof -
  have d: "cmd_for_disp (CmdList args) = Inr (DispStr (join_spaces args))"
    by (simp add: cmd_for_disp_def)
  have r: "read_lines (c_stdout p) = Inr ls"
    by (simp add: assms(3) read_lines_decoded)
  have "run env c chk verb =
        (if c_returncode p \<noteq> 0 \<and> chk
         then Inl (RuntimeError (run_error_message (c_returncode p) (join_spaces args)))
         else Inr \<lparr>res_cmd = join_spaces args, res_pid = c_pid p, res_output = ls,
                   res_start_time = start_clock env, res_returncode = c_returncode p,
                   res_stop_time = stop_clock env\<rparr>)" for chk
    by (simp add: run_def assms(1,2) d r)
  then show ?thesis by (auto simp: run_error_message_def)
qed

theorem run_check_witness:
  "(let env = \<lparr>popen = (\<lambda>a. if a = [''ls'', ''nowhere'']
                 then Inr \<lparr>c_pid = 41, c_stdout = [Inr ''ls: cannot access''], c_returncode = 2\<rparr>
                 else Inr \<lparr>c_pid = 42, c_stdout = [Inr ''done''], c_returncode = 0\<rparr>),
               start_clock = 10, stop_clock = 11\<rparr>
    in run env (CmdStr ''ls  nowhere'') True 2
         = Inl (RuntimeError (''Error occurs when executing the following command (returncode=2):''
                  @ [CHR 0x0A] @ ''ls nowhere''))
       \<and> run env (CmdStr ''ls  nowhere'') False 2
         = Inr \<lparr>res_cmd = ''ls nowhere'', res_pid = 41, res_output = [''ls: cannot access''],
                res_start_time = 10, res_returncode = 2, res_stop_time = 11\<rparr>
       \<and> run env (CmdList [''echo'', ''done'']) True 2
         = Inr \<lparr>res_cmd = ''echo done'', res_pid = 42, res_output = [''done''],
                res_start_time = 10, res_returncode = 0, res_stop_time = 11\<rparr>)"
proof -
  define env where "env = \<lparr>popen = (\<lambda>a. if a = [''ls'', ''nowhere'']
                 then Inr \<lparr>c_pid = 41, c_stdout = [Inr ''ls: cannot access''], c_returncode = 2\<rparr>
                 else Inr \<lparr>c_pid = (42::nat), c_stdout = [Inr ''done''], c_returncode = 0\<rparr>),
               start_clock = 10, stop_clock = 11\<rparr>"
  have e1: "cmd_for_exec (CmdStr ''ls  nowhere'') False = Inr (CmdList [''ls'', ''nowhere''])"
    by (simp add: cmd_for_exec_def shlex_split_def whitespace_def quotes_def escape_def emit_def)
  have e2: "cmd_for_exec (CmdList [''echo'', ''done'']) False = Inr (CmdList [''echo'', ''done''])"
    by (simp add: cmd_for_exec_def)
  have p1: "popen env [''ls'', ''nowhere'']
            = Inr \<lparr>c_pid = 41, c_stdout = [Inr ''ls: cannot access''], c_returncode = 2\<rparr>"
    by (simp add: env_def)
  have p2: "popen env [''echo'', ''done'']
            = Inr \<lparr>c_pid = 42, c_stdout = [Inr ''done''], c_returncode = 0\<rparr>"
    by (simp add: env_def)
  have s2: "str_int 2 = ''2''" by code_simp
  have a: "run env (CmdStr ''ls  nowhere'') True 2
         = Inl (RuntimeError (''Error occurs when executing the following command (returncode=2):''
                  @ [CHR 0x0A] @ ''ls nowhere''))"
    using run_check[OF e1 p1, of "[''ls: cannot access'']" 2 True] by (simp add: s2)
  have b: "run env (CmdStr ''ls  nowhere'') False 2
         = Inr \<lparr>res_cmd = ''ls nowhere'', res_pid = 41, res_output = [''ls: cannot access''],
                res_start_time = 10, res_returncode = 2, res_stop_time = 11\<rparr>"
    using run_check[OF e1 p1, of "[''ls: cannot access'']" 2 False] by (simp add: env_def)
  have c: "run env (CmdList [''echo'', ''done'']) True 2
         = Inr \<lparr>res_cmd = ''echo done'', res_pid = 42, res_output = [''done''],
                res_start_time = 10, res_returncode = 0, res_stop_time = 11\<rparr>"
    using run_check[OF e2 p2, of "[''done'']" 2 True] by (simp add: env_def)
  from a b c show ?thesis unfolding env_def Let_def by simp
qed

text \<open>
  C7 as stated fails for a command whose output is not valid UTF-8: \<open>line.decode('utf-8')\<close>
  raises \<open>UnicodeDecodeError\<close> inside the reading loop, before the return code is read, so
  \<open>run(cmd, check=True)\<close> raises although the command ends with the return code zero, and
  no record is returned.
\<close>

theorem run_check_counterexample:
  "(let env = \<lparr>popen = (\<lambda>a. Inr \<lparr>c_pid = 43,
                                   c_stdout = [Inr ''header'', Inl UnicodeDecodeError],
                                   c_returncode = 0\<rparr>),
               start_clock = 10, stop_clock = 11\<rparr>
    in cmd_for_exec (CmdList [''cat'', ''blob'']) False = Inr (CmdList [''cat'', ''blob''])
       \<and> map_sum id c_returncode (popen env [''cat'', ''blob'']) = Inr 0
       \<and> run env (CmdList [''cat'', ''blob'']) True 2 = Inl UnicodeDecodeError
       \<and> run env (CmdList [''cat'', ''blob'']) False 2 = Inl UnicodeDecodeError)"
  by (simp add: run_def cmd_for_exec_def cmd_for_disp_def)

section \<open>The verdict: proofs\<close>

lemma returncodes_Inr:
  "returncodes js = Inr rcs \<longleftrightarrow> map j_returncode js = map Some rcs"
proof (induction js arbitrary: rcs)
  case Nil
  then show ?case by auto
next
  case (Cons j js)
  show ?case
  proof (cases "j_returncode j")
    case None
    then show ?thesis by auto
  next
    case (Some rc)
    show ?thesis
    proof (cases "returncodes js")
      case (Inl e)
      with Cons[of "tl rcs"] Some show ?thesis by (cases rcs) auto
    next
      case (Inr t)
      with Cons[of t] Cons[of "tl rcs"] Some show ?thesis by (cases rcs) auto
    qed
  qed
qed

lemma np_any_returncodes:
  "map j_returncode js = map Some rcs
   \<Longrightarrow> \<not> np_any rcs \<longleftrightarrow> (\<forall>j \<in> set js. j_returncode j = Some 0)"
proof (induction js arbitrary: rcs)
  case Nil
  then show ?case by (simp add: np_any_def)
next
  case (Cons j js)
  then obtain rc rcs' where r: "rcs = rc # rcs'" "j_returncode j = Some rc"
    "map j_returncode js = map Some rcs'"
    by (cases rcs) auto
  from Cons.IH[OF r(3)] have "\<not> np_any rcs' \<longleftrightarrow> (\<forall>j \<in> set js. j_returncode j = Some 0)" .
  moreover have "np_any rcs \<longleftrightarrow> rc \<noteq> 0 \<or> np_any rcs'" by (simp add: r(1) np_any_def)
  ultimately show ?case using r(2) by auto
qed

lemma returncodes_total:
  "(\<forall>j \<in> set js. j_returncode j \<noteq> None) \<Longrightarrow> returncodes js = Inr (map (the \<circ> j_returncode) js)"
  by (induction js) auto

lemma count_errors_zero:
  "count_errors pat js = 0
   \<longleftrightarrow> (\<forall>j \<in> set js. \<forall>line \<in> set (j_output j). \<not> (case pat of None \<Rightarrow> False | Some p \<Rightarrow> p line))"
  by (cases pat) (auto simp: count_errors_def filter_empty_conv)

lemma match_here_iff:
  "match_here pat s \<longleftrightarrow> (\<exists>m post. s = m @ post \<and> list_all2 (\<in>) m pat)"
proof (induction pat s rule: match_here.induct)
  case (1 s)
  then show ?case by simp
next
  case (2 cls rest)
  then show ?case by (simp add: list_all2_Cons2)
next
  case (3 cls rest c s)
  show ?case
  proof
    assume "match_here (cls # rest) (c # s)"
    with 3 obtain m post where "c \<in> cls" "s = m @ post" "list_all2 (\<in>) m rest" by auto
    then have "c # s = (c # m) @ post \<and> list_all2 (\<in>) (c # m) (cls # rest)" by simp
    then show "\<exists>m post. c # s = m @ post \<and> list_all2 (\<in>) m (cls # rest)" by blast
  next
    assume "\<exists>m post. c # s = m @ post \<and> list_all2 (\<in>) m (cls # rest)"
    then obtain m post where m: "c # s = m @ post" "list_all2 (\<in>) m (cls # rest)" by blast
    then obtain m' where "m = c # m'" "c \<in> cls" "list_all2 (\<in>) m' rest" "s = m' @ post"
      by (cases m) auto
    with 3 show "match_here (cls # rest) (c # s)" by auto
  qed
qed

lemma re_search_iff:
  "re_search pat s \<longleftrightarrow> (\<exists>pre m post. s = pre @ m @ post \<and> list_all2 (\<in>) m pat)"
proof (induction s)
  case Nil
  then show ?case by (auto simp: match_here_iff)
next
  case (Cons c s)
  show ?case
  proof
    assume "re_search pat (c # s)"
    then consider "match_here pat (c # s)" | "re_search pat s" by auto
    then show "\<exists>pre m post. c # s = pre @ m @ post \<and> list_all2 (\<in>) m pat"
    proof cases
      case 1
      then obtain m post where "c # s = [] @ m @ post \<and> list_all2 (\<in>) m pat"
        by (auto simp: match_here_iff)
      then show ?thesis by blast
    next
      case 2
      with Cons obtain pre m post where "s = pre @ m @ post" "list_all2 (\<in>) m pat" by blast
      then have "c # s = (c # pre) @ m @ post \<and> list_all2 (\<in>) m pat" by simp
      then show ?thesis by blast
    qed
  next
    assume "\<exists>pre m post. c # s = pre @ m @ post \<and> list_all2 (\<in>) m pat"
    then obtain pre m post where h: "c # s = pre @ m @ post" "list_all2 (\<in>) m pat" by blast
    show "re_search pat (c # s)"
    proof (cases pre)
      case Nil
      with h have "match_here pat (c # s)" by (auto simp: match_here_iff)
      then show ?thesis by simp
    next
      case (Cons a pre')
      with h have "s = pre' @ m @ post" by simp
      with h(2) Cons.IH have "re_search pat s" by blast
      then show ?thesis by simp
    qed
  qed
qed

text \<open>
  C3: \<open>all_successful\<close> returns true if and only if every job of the given list (the
  whole history when no list is given) has the return code zero and no line of any
  job's output matches the pattern; for jobs that all have a return code the call
  returns exactly that truth value; it returns true for an empty list; and the default
  pattern matches a line exactly when the line contains \<open>error\<close> in any mix of cases or
  two asterisks in a row.
\<close>

theorem all_successful_iff:
  fixes self :: pooled_caller and jobs :: "job list option"
  defines "js \<equiv> (case jobs of None \<Rightarrow> jobs_log self | Some l \<Rightarrow> l)"
  defines "clean \<equiv> (\<lambda>pat. \<forall>j \<in> set js. \<forall>line \<in> set (j_output j).
                        \<not> (case pat of None \<Rightarrow> False | Some p \<Rightarrow> p line))"
  shows "(all_successful self pat jobs = Inr True
            \<longleftrightarrow> (\<forall>j \<in> set js. j_returncode j = Some 0) \<and> clean pat)
     \<and> ((\<forall>j \<in> set js. j_returncode j \<noteq> None) \<longrightarrow>
            all_successful self pat jobs
            = Inr ((\<forall>j \<in> set js. j_returncode j = Some 0) \<and> clean pat))
     \<and> all_successful self pat (Some []) = Inr True
     \<and> (default_error_pattern line
            \<longleftrightarrow> (\<exists>pre m post. line = pre @ m @ post
                   \<and> (list_all2 (\<in>) m [{CHR ''e'', CHR ''E''}, {CHR ''r'', CHR ''R''},
                         {CHR ''r'', CHR ''R''}, {CHR ''o'', CHR ''O''}, {CHR ''r'', CHR ''R''}]
                       \<or> m = ''**'')))"
proof (intro conjI)
  have unf: "all_successful self pat jobs =
        (case returncodes js of Inl e \<Rightarrow> Inl e
         | Inr rcs \<Rightarrow> Inr (\<not> np_any rcs \<and> count_errors pat js = 0))"
    unfolding all_successful_def Let_def js_def by (rule refl)
  have zero: "\<not> np_any rcs \<longleftrightarrow> (\<forall>j \<in> set js. j_returncode j = Some 0)"
    if "returncodes js = Inr rcs" for rcs
    using that by (simp add: returncodes_Inr np_any_returncodes)
  show "all_successful self pat jobs = Inr True
            \<longleftrightarrow> (\<forall>j \<in> set js. j_returncode j = Some 0) \<and> clean pat"
  proof (cases "returncodes js")
    case (Inl e)
    have "\<not> (\<forall>j \<in> set js. j_returncode j \<noteq> None)"
    proof
      assume "\<forall>j \<in> set js. j_returncode j \<noteq> None"
      then have "returncodes js = Inr (map (the \<circ> j_returncode) js)"
        by (rule returncodes_total)
      with Inl show False by simp
    qed
    then obtain j where "j \<in> set js" "j_returncode j = None" by blast
    then have "\<not> (\<forall>j \<in> set js. j_returncode j = Some 0)" by force
    with Inl show ?thesis by (simp add: unf)
  next
    case (Inr rcs)
    with zero[OF Inr] show ?thesis
      by (simp add: unf clean_def count_errors_zero)
  qed
  show "(\<forall>j \<in> set js. j_returncode j \<noteq> None) \<longrightarrow>
            all_successful self pat jobs
            = Inr ((\<forall>j \<in> set js. j_returncode j = Some 0) \<and> clean pat)"
  proof
    assume "\<forall>j \<in> set js. j_returncode j \<noteq> None"
    then have r: "returncodes js = Inr (map (the \<circ> j_returncode) js)"
      by (rule returncodes_total)
    from zero[OF r] show "all_successful self pat jobs
            = Inr ((\<forall>j \<in> set js. j_returncode j = Some 0) \<and> clean pat)"
      by (simp add: unf r clean_def count_errors_zero)
  qed
  show "all_successful self pat (Some []) = Inr True"
    by (cases pat) (simp_all add: all_successful_def np_any_def count_errors_def)
  have two: "list_all2 (\<in>) m [{CHR ''*''}, {CHR ''*''}] \<longleftrightarrow> m = ''**''" for m
    by (auto simp: list_all2_Cons2)
  show "default_error_pattern line
            \<longleftrightarrow> (\<exists>pre m post. line = pre @ m @ post
                   \<and> (list_all2 (\<in>) m [{CHR ''e'', CHR ''E''}, {CHR ''r'', CHR ''R''},
                         {CHR ''r'', CHR ''R''}, {CHR ''o'', CHR ''O''}, {CHR ''r'', CHR ''R''}]
                       \<or> m = ''**''))"
    unfolding default_error_pattern_def re_search_iff two[symmetric] by blast
qed

theorem all_successful_iff_witness:
  "all_successful
     ((pooled_caller_init 4 None 1)
        \<lparr>jobs_log := [\<lparr>j_idx = 0, j_cmd = DispStr ''true'', j_output = [''ok''], j_pid = 7,
                       j_returncode = Some 0\<rparr>]\<rparr>)
     (Some default_error_pattern) None = Inr True
   \<and> all_successful (pooled_caller_init 4 None 1) (Some default_error_pattern)
       (Some [\<lparr>j_idx = 0, j_cmd = DispStr ''true'', j_output = [''ok''], j_pid = 7,
                j_returncode = Some 0\<rparr>,
              \<lparr>j_idx = 1, j_cmd = DispStr ''make'', j_output = [''Fatal Error''], j_pid = 8,
                j_returncode = Some 0\<rparr>]) = Inr False
   \<and> all_successful (pooled_caller_init 4 None 1) None
       (Some [\<lparr>j_idx = 0, j_cmd = DispStr ''false'', j_output = [], j_pid = 9,
                j_returncode = Some 1\<rparr>]) = Inr False"
proof -
  let ?s = "pooled_caller_init 4 None 1"
  let ?a = "\<lparr>j_idx = 0, j_cmd = DispStr ''true'', j_output = [''ok''], j_pid = 7,
             j_returncode = Some 0\<rparr>"
  let ?b = "\<lparr>j_idx = 1, j_cmd = DispStr ''make'', j_output = [''Fatal Error''], j_pid = 8,
             j_returncode = Some 0\<rparr>"
  let ?c = "\<lparr>j_idx = 0, j_cmd = DispStr ''false'', j_output = [], j_pid = 9,
             j_returncode = Some 1\<rparr>"
  have ok: "\<not> default_error_pattern ''ok''"
    by (simp add: default_error_pattern_def)
  have bad: "default_error_pattern ''Fatal Error''"
    by (simp add: default_error_pattern_def)
  have 1: "all_successful (?s\<lparr>jobs_log := [?a]\<rparr>) (Some default_error_pattern) None = Inr True"
    using all_successful_iff[where self = "?s\<lparr>jobs_log := [?a]\<rparr>"
        and pat = "Some default_error_pattern" and jobs = None] ok
    by simp
  have 2: "all_successful ?s (Some default_error_pattern) (Some [?a, ?b]) = Inr False"
    using all_successful_iff[where self = ?s
        and pat = "Some default_error_pattern" and jobs = "Some [?a, ?b]"] ok bad
    by simp
  have 3: "all_successful ?s None (Some [?c]) = Inr False"
    using all_successful_iff[where self = ?s and pat = None and jobs = "Some [?c]"]
    by simp
  from 1 2 3 show ?thesis by blast
qed

section \<open>The worker of a callable job: proofs\<close>

text \<open>
  C4: when the callable raises, the error buffer ends with the two diagnostic lines that
  name the job index and the message; the fault leaves the wrapper, so the worker's exit
  code is not zero; and the entry pushed on the results channel carries the index, a
  null value and the captured lines, the diagnostic among them. When the callable
  returns, the entry carries the index, the returned value and the captured lines.
  On either path the channel grows by exactly one entry, which carries the job's index.
\<close>

theorem callable_wrapper_pushes_once:
  fixes idx :: nat
  assumes "f args kw = \<lparr>out_text = out, err_text = err, ending = e\<rparr>"
  defines "diag \<equiv> (\<lambda>msg. ''>> Error occurs in job#'' @ str_nat idx @ [CHR 0x0A]
                           @ ''** ERROR: '' @ msg @ [CHR 0x0A])"
  shows "(e = Raises msg \<longrightarrow>
            callable_wrapper self idx f args kw
            = (Some (CallableFault msg), err @ diag msg,
               self\<lparr>res_queue := res_queue self
                  @ [\<lparr>r_idx = idx, r_val = NoneV,
                      r_output = Some (splitlines out @ splitlines (err @ diag msg))\<rparr>]\<rparr>)
            \<and> process_exitcode (fst (callable_wrapper self idx f args kw)) \<noteq> 0)
     \<and> (e = Returns v \<longrightarrow>
            callable_wrapper self idx f args kw
            = (None, err,
               self\<lparr>res_queue := res_queue self
                  @ [\<lparr>r_idx = idx, r_val = v,
                      r_output = Some (splitlines out @ splitlines err)\<rparr>]\<rparr>)
            \<and> process_exitcode (fst (callable_wrapper self idx f args kw)) = 0)
     \<and> (\<exists>entry. res_queue (snd (snd (callable_wrapper self idx f args kw)))
                   = res_queue self @ [entry] \<and> r_idx entry = idx)"
  using assms(1)
  by (cases e) (simp_all add: callable_wrapper_def diag_def process_exitcode_def Let_def)

theorem callable_wrapper_pushes_once_witness:
  "callable_wrapper (pooled_caller_init 4 None 1) 3
     (\<lambda>args kw. \<lparr>out_text = ''step 1'' @ [CHR 0x0A], err_text = [], ending = Raises ''boom''\<rparr>)
     [] []
   = (Some (CallableFault ''boom''),
      ''>> Error occurs in job#3'' @ [CHR 0x0A] @ ''** ERROR: boom'' @ [CHR 0x0A],
      (pooled_caller_init 4 None 1)
        \<lparr>res_queue := [\<lparr>r_idx = 3, r_val = NoneV,
                         r_output = Some [''step 1'' @ [CHR 0x0A],
                                          ''>> Error occurs in job#3'' @ [CHR 0x0A],
                                          ''** ERROR: boom'' @ [CHR 0x0A]]\<rparr>]\<rparr>)"
proof -
  let ?f = "\<lambda>(args::pyval list) (kw::kwargs).
              \<lparr>out_text = ''step 1'' @ [CHR 0x0A], err_text = [], ending = Raises ''boom''\<rparr>"
  have r: "?f [] [] = \<lparr>out_text = ''step 1'' @ [CHR 0x0A], err_text = [], ending = Raises ''boom''\<rparr>"
    by simp
  have s3: "str_nat 3 = ''3''" by code_simp
  have q: "res_queue (pooled_caller_init 4 None 1) = []" by (simp add: pooled_caller_init_def)
  have l1: "splitlines (''step 1'' @ [CHR 0x0A]) = [''step 1'' @ [CHR 0x0A]]"
    by (simp add: splitlines_def linebreaks_def)
  have l2: "splitlines (''>> Error occurs in job#3'' @ [CHR 0x0A] @ ''** ERROR: boom'' @ [CHR 0x0A])
            = [''>> Error occurs in job#3'' @ [CHR 0x0A], ''** ERROR: boom'' @ [CHR 0x0A]]"
    by (simp add: splitlines_def linebreaks_def)
  from callable_wrapper_pushes_once[OF r, where msg = "''boom''"
      and self = "pooled_caller_init 4 None 1" and idx = 3]
  have "callable_wrapper (pooled_caller_init 4 None 1) 3 ?f [] []
        = (Some (CallableFault ''boom''),
           [] @ ''>> Error occurs in job#'' @ str_nat 3 @ [CHR 0x0A] @ ''** ERROR: '' @ ''boom'' @ [CHR 0x0A],
           (pooled_caller_init 4 None 1)
             \<lparr>res_queue := res_queue (pooled_caller_init 4 None 1)
                @ [\<lparr>r_idx = 3, r_val = NoneV,
                    r_output = Some (splitlines (''step 1'' @ [CHR 0x0A])
                       @ splitlines ([] @ ''>> Error occurs in job#'' @ str_nat 3 @ [CHR 0x0A]
                                     @ ''** ERROR: '' @ ''boom'' @ [CHR 0x0A]))\<rparr>]\<rparr>)"
    by simp
  then show ?thesis using l1 l2 by (simp add: s3 q)
qed

section \<open>Dispatching and waiting: proofs\<close>

subsection \<open>Rules for the three loops\<close>

lemma dispatch_stop:
  "\<not> (int (length (ps s)) < pool_size s \<and> cmd_queue s \<noteq> []) \<Longrightarrow> dispatch env s = (None, s)"
  by (subst dispatch.simps) auto

lemma dispatch_fault:
  "int (length (ps s)) < pool_size s \<Longrightarrow> cmd_queue s \<noteq> [] \<Longrightarrow> start_job env s = (Some e, s1)
   \<Longrightarrow> dispatch env s = (Some e, s1)"
  by (subst dispatch.simps) simp

lemma dispatch_more:
  "int (length (ps s)) < pool_size s \<Longrightarrow> cmd_queue s \<noteq> [] \<Longrightarrow> start_job env s = (None, s1)
   \<Longrightarrow> dispatch env s = dispatch env s1"
  by (subst dispatch.simps) simp

text \<open>
  An invariant \<open>I\<close> that every successful start keeps, and a property \<open>F\<close> that holds of
  the pool after a start that faults.
\<close>

lemma dispatch_rule:
  assumes ok: "\<And>env s s1. int (length (ps s)) < pool_size s \<Longrightarrow> cmd_queue s \<noteq> [] \<Longrightarrow> I s
                 \<Longrightarrow> start_job env s = (None, s1) \<Longrightarrow> I s1"
    and bad: "\<And>env s e s1. int (length (ps s)) < pool_size s \<Longrightarrow> cmd_queue s \<noteq> [] \<Longrightarrow> I s
                 \<Longrightarrow> start_job env s = (Some e, s1) \<Longrightarrow> F s1"
  shows "I s \<Longrightarrow> dispatch env s = (r, s') \<Longrightarrow> (r = None \<longrightarrow> I s') \<and> (r \<noteq> None \<longrightarrow> F s')"
proof (induction env s rule: dispatch.induct)
  case (1 env self)
  show ?case
  proof (cases "int (length (ps self)) < pool_size self \<and> cmd_queue self \<noteq> []")
    case False
    then have "dispatch env self = (None, self)" by (rule dispatch_stop)
    with "1.prems" show ?thesis by simp
  next
    case True
    obtain x y where xy: "start_job env self = (x, y)" by (cases "start_job env self")
    show ?thesis
    proof (cases x)
      case None
      with True xy have "dispatch env self = dispatch env y" by (simp add: dispatch_more)
      with "1.prems" have d: "dispatch env y = (r, s')" by simp
      from True "1.prems"(1) xy None have "I y" using ok by blast
      with "1.IH"[OF True xy[symmetric] None] d show ?thesis by simp
    next
      case (Some e)
      with True xy have "dispatch env self = (Some e, y)" by (simp add: dispatch_fault)
      with "1.prems" have "r = Some e" "s' = y" by simp_all
      moreover from True "1.prems"(1) xy Some have "F y" using bad by blast
      ultimately show ?thesis by simp
    qed
  qed
qed

lemma poll_from_stop: "\<not> i < length (ps s) \<Longrightarrow> poll_from t i s = (None, s)"
  by (subst poll_from.simps) simp

lemma poll_from_fault:
  "i < length (ps s) \<Longrightarrow> poll_one t (ps s ! i) s = (Some e, s1) \<Longrightarrow> poll_from t i s = (Some e, s1)"
  by (subst poll_from.simps) simp

lemma poll_from_more:
  "i < length (ps s) \<Longrightarrow> poll_one t (ps s ! i) s = (None, s1)
   \<Longrightarrow> poll_from t i s = poll_from t (Suc i) s1"
  by (subst poll_from.simps) simp

lemma poll_from_rule:
  assumes ok: "\<And>t p s s1. I s \<Longrightarrow> poll_one t p s = (None, s1) \<Longrightarrow> I s1"
    and bad: "\<And>t p s e s1. I s \<Longrightarrow> poll_one t p s = (Some e, s1) \<Longrightarrow> F s1"
  shows "I s \<Longrightarrow> poll_from t i s = (r, s') \<Longrightarrow> (r = None \<longrightarrow> I s') \<and> (r \<noteq> None \<longrightarrow> F s')"
proof (induction t i s rule: poll_from.induct)
  case (1 t i self)
  show ?case
  proof (cases "i < length (ps self)")
    case False
    then have "poll_from t i self = (None, self)" by (rule poll_from_stop)
    with "1.prems" show ?thesis by simp
  next
    case True
    obtain x y where xy: "poll_one t (ps self ! i) self = (x, y)"
      by (cases "poll_one t (ps self ! i) self")
    show ?thesis
    proof (cases x)
      case None
      with True xy have "poll_from t i self = poll_from t (Suc i) y" by (simp add: poll_from_more)
      with "1.prems" have d: "poll_from t (Suc i) y = (r, s')" by simp
      from "1.prems"(1) xy None have "I y" using ok by blast
      with "1.IH"[OF True xy[symmetric] None] d show ?thesis by simp
    next
      case (Some e)
      with True xy have "poll_from t i self = (Some e, y)" by (simp add: poll_from_fault)
      with "1.prems" have "r = Some e" "s' = y" by simp_all
      moreover from "1.prems"(1) xy Some have "F y" using bad by blast
      ultimately show ?thesis by simp
    qed
  qed
qed

text \<open>
  The loop of \<open>wait\<close>: an invariant that does not read the results channel and is kept by
  the three steps of a pass holds when the loop returns (with \<open>ps\<close> and the queue
  empty) and when the observations end; \<open>F\<close> holds when a fault leaves the loop.
\<close>

lemma wait_loop_rule:
  assumes start_ok: "\<And>env s s1. int (length (ps s)) < pool_size s \<Longrightarrow> cmd_queue s \<noteq> [] \<Longrightarrow> I s
                 \<Longrightarrow> start_job env s = (None, s1) \<Longrightarrow> I s1"
    and start_bad: "\<And>env s e s1. int (length (ps s)) < pool_size s \<Longrightarrow> cmd_queue s \<noteq> [] \<Longrightarrow> I s
                 \<Longrightarrow> start_job env s = (Some e, s1) \<Longrightarrow> F s1"
    and poll_ok: "\<And>t p s s1. I s \<Longrightarrow> poll_one t p s = (None, s1) \<Longrightarrow> I s1"
    and poll_bad: "\<And>t p s e s1. I s \<Longrightarrow> poll_one t p s = (Some e, s1) \<Longrightarrow> F s1"
    and get_ok: "\<And>s l s1 l1. I s \<Longrightarrow> async_get_res s l = (None, s1, l1) \<Longrightarrow> I s1"
    and get_bad: "\<And>s l e s1 l1. I s \<Longrightarrow> async_get_res s l = (Some e, s1, l1) \<Longrightarrow> F s1"
    and chan: "\<And>s q. I s \<Longrightarrow> I (s\<lparr>res_queue := q\<rparr>)"
  shows "I s \<Longrightarrow> wait_loop env ticks s ress = (out, s')
         \<Longrightarrow> (case out of
                Returned l \<Rightarrow> I s' \<and> ps s' = [] \<and> cmd_queue s' = []
              | Raised e \<Rightarrow> F s'
              | Waiting \<Rightarrow> I s')"
proof (induction ticks arbitrary: s ress)
  case Nil
  then show ?case by (auto split: if_splits)
next
  case (Cons t ts)
  show ?case
  proof (cases "ps s \<noteq> [] \<or> cmd_queue s \<noteq> []")
    case False
    with Cons.prems show ?thesis by auto
  next
    case True
    let ?s0 = "s\<lparr>res_queue := res_queue s @ arrived_early t\<rparr>"
    have I0: "I ?s0" using Cons.prems(1) by (rule chan)
    obtain r1 s1 where d: "dispatch env ?s0 = (r1, s1)" by (cases "dispatch env ?s0")
    from dispatch_rule[of I F, OF start_ok start_bad I0 d]
    have d1: "r1 = None \<longrightarrow> I s1" and d2: "r1 \<noteq> None \<longrightarrow> F s1" by simp_all
    show ?thesis
    proof (cases r1)
      case (Some e)
      with True d Cons.prems(2) have "out = Raised e" "s' = s1" by simp_all
      with d2 Some show ?thesis by simp
    next
      case None
      then have I1: "I s1" using d1 by simp
      obtain r2 s2 where p: "poll_from t 0 s1 = (r2, s2)" by (cases "poll_from t 0 s1")
      from poll_from_rule[of I F, OF poll_ok poll_bad I1 p]
      have p1: "r2 = None \<longrightarrow> I s2" and p2: "r2 \<noteq> None \<longrightarrow> F s2" by simp_all
      show ?thesis
      proof (cases r2)
        case (Some e)
        with True d p \<open>r1 = None\<close> Cons.prems(2) have "out = Raised e" "s' = s2" by simp_all
        with p2 Some show ?thesis by simp
      next
        case None
        then have "I s2" using p1 by simp
        then have I2: "I (s2\<lparr>res_queue := res_queue s2 @ arrived_late t\<rparr>)" by (rule chan)
        obtain r3 s3 l3 where g: "async_get_res (s2\<lparr>res_queue := res_queue s2 @ arrived_late t\<rparr>) ress
                                  = (r3, s3, l3)"
          by (cases "async_get_res (s2\<lparr>res_queue := res_queue s2 @ arrived_late t\<rparr>) ress")
        show ?thesis
        proof (cases r3)
          case (Some e)
          with True d p g \<open>r1 = None\<close> \<open>r2 = None\<close> Cons.prems(2)
          have "out = Raised e" "s' = s3" by simp_all
          moreover from I2 g Some have "F s3" using get_bad by blast
          ultimately show ?thesis by simp
        next
          case None
          with True d p g \<open>r1 = None\<close> \<open>r2 = None\<close> Cons.prems(2)
          have w: "wait_loop env ts s3 l3 = (out, s')" by simp
          from I2 g None have "I s3" using get_ok by blast
          from Cons.IH[OF this w] show ?thesis .
        qed
      qed
    qed
  qed
qed

subsection \<open>The running set stays within the pool size\<close>

lemma within_pool_start:
  assumes "int (length (ps s)) < pool_size s" and "within_pool h0 K s"
    and "start_job env s = (e, s1)"
  shows "within_pool h0 K s1"
proof -
  from assms(2) obtain new where k: "pool_size s = K" and l: "int (length (ps s)) \<le> K"
    and h: "running_hist s = h0 @ new" and b: "\<forall>n \<in> set new. int n \<le> K"
    by (auto simp: within_pool_def)
  show ?thesis
  proof (cases "ps s1 = ps s \<and> running_hist s1 = running_hist s \<and> pool_size s1 = pool_size s")
    case True
    with assms(2) show ?thesis by (simp add: within_pool_def)
  next
    case False
    with assms(3) obtain p where s1: "ps s1 = ps s @ [p]"
      "running_hist s1 = running_hist s @ [Suc (length (ps s))]" "pool_size s1 = pool_size s"
      by (auto simp: start_job_def Let_def split: list.splits sum.splits prod.splits)
    have "running_hist s1 = h0 @ (new @ [Suc (length (ps s))])" by (simp add: s1 h)
    moreover have "\<forall>n \<in> set (new @ [Suc (length (ps s))]). int n \<le> K"
      using b assms(1) k by auto
    ultimately have "\<exists>new'. running_hist s1 = h0 @ new' \<and> (\<forall>n \<in> set new'. int n \<le> K)"
      by blast
    moreover have "int (length (ps s1)) \<le> K" using assms(1) k by (simp add: s1)
    ultimately show ?thesis by (simp add: within_pool_def s1 k)
  qed
qed

lemma within_pool_poll:
  assumes "within_pool h0 K s" and "poll_one t p s = (e, s1)"
  shows "within_pool h0 K s1"
proof -
  from assms(1) obtain new where k: "pool_size s = K" and l: "int (length (ps s)) \<le> K"
    and h: "running_hist s = h0 @ new" and b: "\<forall>n \<in> set new. int n \<le> K"
    by (auto simp: within_pool_def)
  show ?thesis
  proof (cases "ps s1 = ps s \<and> running_hist s1 = running_hist s \<and> pool_size s1 = pool_size s")
    case True
    with assms(1) show ?thesis by (simp add: within_pool_def)
  next
    case False
    with assms(2) have s1: "ps s1 = remove1 p (ps s)"
      "running_hist s1 = running_hist s @ [length (remove1 p (ps s))]" "pool_size s1 = pool_size s"
      by (auto simp: poll_one_def Let_def split: option.splits proc_kind.splits)
    have le: "length (remove1 p (ps s)) \<le> length (ps s)" by (simp add: length_remove1)
    have "running_hist s1 = h0 @ (new @ [length (remove1 p (ps s))])" by (simp add: s1 h)
    moreover have "\<forall>n \<in> set (new @ [length (remove1 p (ps s))]). int n \<le> K"
      using b l le by auto
    ultimately have "\<exists>new'. running_hist s1 = h0 @ new' \<and> (\<forall>n \<in> set new'. int n \<le> K)"
      by blast
    moreover have "int (length (ps s1)) \<le> K" using l le by (simp add: s1)
    ultimately show ?thesis by (simp add: within_pool_def s1 k)
  qed
qed

lemma async_get_res_frame:
  assumes "async_get_res s l = (e, s1, l1)"
  shows "ps s1 = ps s" and "running_hist s1 = running_hist s" and "pool_size s1 = pool_size s"
    and "cmd_queue s1 = cmd_queue s" and "n_cmds s1 = n_cmds s"
    and "map j_idx (jobs_log s1) = map j_idx (jobs_log s)"
proof -
  have upd: "map j_idx (js[r := (js ! r)\<lparr>j_output := out\<rparr>]) = map j_idx js" for js r out
    by (cases "r < length js") (simp_all add: map_update list_update_same_conv list_update_beyond)
  from assms show "ps s1 = ps s" and "running_hist s1 = running_hist s"
    and "pool_size s1 = pool_size s" and "cmd_queue s1 = cmd_queue s" and "n_cmds s1 = n_cmds s"
    by (auto simp: async_get_res_def Let_def split: list.splits option.splits)
  from assms show "map j_idx (jobs_log s1) = map j_idx (jobs_log s)"
    by (auto simp: async_get_res_def Let_def upd split: list.splits option.splits)
qed

lemma within_pool_get:
  assumes "within_pool h0 K s" and "async_get_res s l = (e, s1, l1)"
  shows "within_pool h0 K s1"
  using assms(1) async_get_res_frame(1,2,3)[OF assms(2)] by (simp add: within_pool_def)

lemma within_pool_chan: "within_pool h0 K s \<Longrightarrow> within_pool h0 K (s\<lparr>res_queue := q\<rparr>)"
  by (simp add: within_pool_def)

lemma within_pool_dispatch:
  assumes "within_pool h0 K s"
  shows "within_pool h0 K (snd (dispatch env s))"
proof -
  obtain r s' where d: "dispatch env s = (r, s')" by (cases "dispatch env s")
  have "(r = None \<longrightarrow> within_pool h0 K s') \<and> (r \<noteq> None \<longrightarrow> within_pool h0 K s')"
    by (rule dispatch_rule[of "within_pool h0 K" "within_pool h0 K", OF _ _ assms d])
       (erule (2) within_pool_start)+
  with d show ?thesis by auto
qed

lemma within_pool_wait_loop:
  assumes "within_pool h0 K s"
  shows "within_pool h0 K (snd (wait_loop env ticks s ress))"
proof -
  obtain out s' where w: "wait_loop env ticks s ress = (out, s')"
    by (cases "wait_loop env ticks s ress")
  have "(case out of
           Returned l \<Rightarrow> within_pool h0 K s' \<and> ps s' = [] \<and> cmd_queue s' = []
         | Raised e \<Rightarrow> within_pool h0 K s'
         | Waiting \<Rightarrow> within_pool h0 K s')"
  proof (rule wait_loop_rule[of "within_pool h0 K" "within_pool h0 K", OF _ _ _ _ _ _ _ assms w])
    show "\<And>env s s1. int (length (ps s)) < pool_size s \<Longrightarrow> cmd_queue s \<noteq> []
            \<Longrightarrow> within_pool h0 K s \<Longrightarrow> start_job env s = (None, s1) \<Longrightarrow> within_pool h0 K s1"
      by (erule (2) within_pool_start)
    show "\<And>env s e s1. int (length (ps s)) < pool_size s \<Longrightarrow> cmd_queue s \<noteq> []
            \<Longrightarrow> within_pool h0 K s \<Longrightarrow> start_job env s = (Some e, s1) \<Longrightarrow> within_pool h0 K s1"
      by (erule (2) within_pool_start)
    show "\<And>t p s s1. within_pool h0 K s \<Longrightarrow> poll_one t p s = (None, s1) \<Longrightarrow> within_pool h0 K s1"
      by (erule (1) within_pool_poll)
    show "\<And>t p s e s1. within_pool h0 K s \<Longrightarrow> poll_one t p s = (Some e, s1)
            \<Longrightarrow> within_pool h0 K s1"
      by (erule (1) within_pool_poll)
    show "\<And>s l s1 l1. within_pool h0 K s \<Longrightarrow> async_get_res s l = (None, s1, l1)
            \<Longrightarrow> within_pool h0 K s1"
      by (erule (1) within_pool_get)
    show "\<And>s l e s1 l1. within_pool h0 K s \<Longrightarrow> async_get_res s l = (Some e, s1, l1)
            \<Longrightarrow> within_pool h0 K s1"
      by (erule (1) within_pool_get)
    show "\<And>s q. within_pool h0 K s \<Longrightarrow> within_pool h0 K (s\<lparr>res_queue := q\<rparr>)"
      by (rule within_pool_chan)
  qed
  with w show ?thesis by (cases out) simp_all
qed

text \<open>How a call of \<open>wait\<close> ends, in terms of its loop and of the \<open>get\<close> after the loop.\<close>

lemma wait_elim:
  assumes "wait env ticks self psize rc rj = (out, s')"
  obtains
    (in_loop) out1 where
      "wait_loop env ticks (case psize of None \<Rightarrow> self | Some k \<Rightarrow> self\<lparr>pool_size := k\<rparr>) []
       = (out1, s')"
      "\<forall>l. out1 \<noteq> Returned l" "\<forall>v. out \<noteq> Returned v"
  | (after_loop) ress s1 e l2 where
      "wait_loop env ticks (case psize of None \<Rightarrow> self | Some k \<Rightarrow> self\<lparr>pool_size := k\<rparr>) []
       = (Returned ress, s1)"
      "async_get_res s1 ress = (e, s', l2)" "\<forall>v. out \<noteq> Returned v"
  | (returned) ress s1 s2 l2 v where
      "wait_loop env ticks (case psize of None \<Rightarrow> self | Some k \<Rightarrow> self\<lparr>pool_size := k\<rparr>) []
       = (Returned ress, s1)"
      "async_get_res s1 ress = (None, s2, l2)" "out = Returned v"
      "s' = (case psize of
               None \<Rightarrow> s2\<lparr>n_cmds := 0, idx2pid := [], pid2job := []\<rparr>
             | Some k \<Rightarrow> s2\<lparr>n_cmds := 0, idx2pid := [], pid2job := [],
                             pool_size := pool_size self\<rparr>)"
proof -
  let ?s0 = "case psize of None \<Rightarrow> self | Some k \<Rightarrow> self\<lparr>pool_size := k\<rparr>"
  obtain out1 s1 where w: "wait_loop env ticks ?s0 [] = (out1, s1)"
    by (cases "wait_loop env ticks ?s0 []")
  show thesis
  proof (cases out1)
    case Waiting
    with w assms have "out = Waiting" "s' = s1" by (simp_all add: wait_def)
    with w Waiting show thesis by (intro in_loop[of out1]) simp_all
  next
    case (Raised e)
    with w assms have "out = Raised e" "s' = s1" by (simp_all add: wait_def)
    with w Raised show thesis by (intro in_loop[of out1]) simp_all
  next
    case (Returned ress)
    obtain e s2 l2 where g: "async_get_res s1 ress = (e, s2, l2)"
      by (cases "async_get_res s1 ress")
    show thesis
    proof (cases e)
      case (Some x)
      with w Returned g assms have "out = Raised x" "s' = s2" by (simp_all add: wait_def)
      with w Returned g show thesis by (intro after_loop[of ress s1 e l2]) simp_all
    next
      case None
      let ?jobs = "sort_key j_idx (map (\<lambda>(pid, r). jobs_log s2 ! r) (pid2job s2))"
      show thesis
      proof (cases "returncodes ?jobs")
        case (Inl x)
        with w Returned g None assms have "out = Raised x" "s' = s2"
          by (simp_all add: wait_def)
        with w Returned g show thesis by (intro after_loop[of ress s1 e l2]) simp_all
      next
        case (Inr codes)
        with w Returned g None assms have "\<exists>v. out = Returned v"
          and "s' = (case psize of
               None \<Rightarrow> s2\<lparr>n_cmds := 0, idx2pid := [], pid2job := []\<rparr>
             | Some k \<Rightarrow> s2\<lparr>n_cmds := 0, idx2pid := [], pid2job := [],
                             pool_size := pool_size self\<rparr>)"
          by (auto simp: wait_def Let_def split: option.splits)
        with w Returned g None show thesis by (elim exE, intro returned[of ress s1 s2 l2]) simp_all
      qed
    qed
  qed
qed

text \<open>
  C2 (amended): from a pool whose running set has at most \<open>pool_size\<close> members when the
  call is entered (the override, for a call of \<open>wait\<close> that gives one), the length of \<open>ps\<close>
  after every change made by \<open>dispatch()\<close> is at most \<open>pool_size\<close>, and so is the length
  it ends with; the same holds for every change made during \<open>wait()\<close>, however the call
  ends, with the pool size in force for that call (the override when one is given).
  Submitting a job does not touch \<open>ps\<close>, polling a handle never lengthens it, and taking
  a result leaves it as it is: only the body of the loop of \<open>dispatch()\<close> adds to it.
  A new pool starts with an empty running set.
\<close>

theorem running_within_pool_size:
  fixes self :: pooled_caller and psize :: "int option"
  defines "eff \<equiv> (case psize of None \<Rightarrow> pool_size self | Some k \<Rightarrow> k)"
  shows "(int (length (ps self)) \<le> pool_size self \<longrightarrow>
            (\<exists>new. running_hist (snd (dispatch env self)) = running_hist self @ new
                   \<and> (\<forall>n \<in> set new. int n \<le> pool_size self))
            \<and> int (length (ps (snd (dispatch env self)))) \<le> pool_size self)
     \<and> (int (length (ps self)) \<le> eff \<longrightarrow>
            (\<exists>new. running_hist (snd (wait env ticks self psize rc rj)) = running_hist self @ new
                   \<and> (\<forall>n \<in> set new. int n \<le> eff))
            \<and> int (length (ps (snd (wait env ticks self psize rc rj)))) \<le> eff)
     \<and> ps (snd (pc_run self c args kw)) = ps self
     \<and> length (ps (snd (poll_one t p self))) \<le> length (ps self)
     \<and> ps (fst (snd (async_get_res self l))) = ps self
     \<and> ps (pooled_caller_init cpus size0 verb) = []"
proof (intro conjI impI)
  assume le: "int (length (ps self)) \<le> pool_size self"
  then have "within_pool (running_hist self) (pool_size self) self"
    by (simp add: within_pool_def)
  then have w: "within_pool (running_hist self) (pool_size self) (snd (dispatch env self))"
    by (rule within_pool_dispatch)
  then show "\<exists>new. running_hist (snd (dispatch env self)) = running_hist self @ new
                   \<and> (\<forall>n \<in> set new. int n \<le> pool_size self)"
    by (simp add: within_pool_def)
  from w show "int (length (ps (snd (dispatch env self)))) \<le> pool_size self"
    by (simp add: within_pool_def)
next
  assume le: "int (length (ps self)) \<le> eff"
  let ?s0 = "case psize of None \<Rightarrow> self | Some k \<Rightarrow> self\<lparr>pool_size := k\<rparr>"
  let ?W = "within_pool (running_hist self) eff"
  have "?W ?s0" using le by (cases psize) (simp_all add: within_pool_def eff_def)
  then have loop: "?W (snd (wait_loop env ticks ?s0 []))" by (rule within_pool_wait_loop)
  obtain out s' where w: "wait env ticks self psize rc rj = (out, s')"
    by (cases "wait env ticks self psize rc rj")
  have "(\<exists>new. running_hist s' = running_hist self @ new \<and> (\<forall>n \<in> set new. int n \<le> eff))
        \<and> int (length (ps s')) \<le> eff"
    using w
  proof (cases rule: wait_elim)
    case (in_loop out1)
    with loop show ?thesis by (simp add: within_pool_def)
  next
    case (after_loop ress s1 e l2)
    with loop have "?W s1" by simp
    then have "?W s'" using after_loop(2) by (rule within_pool_get)
    then show ?thesis by (simp add: within_pool_def)
  next
    case (returned ress s1 s2 l2 v)
    with loop have "?W s1" by simp
    then have "?W s2" using returned(2) by (rule within_pool_get)
    then show ?thesis using returned(4) by (cases psize) (simp_all add: within_pool_def)
  qed
  with w show "\<exists>new. running_hist (snd (wait env ticks self psize rc rj)) = running_hist self @ new
                   \<and> (\<forall>n \<in> set new. int n \<le> eff)"
    and "int (length (ps (snd (wait env ticks self psize rc rj)))) \<le> eff"
    by simp_all
next
  show "ps (snd (pc_run self c args kw)) = ps self"
    by (simp add: pc_run_def split: sum.splits)
  show "length (ps (snd (poll_one t p self))) \<le> length (ps self)"
    by (auto simp: poll_one_def Let_def length_remove1 split: option.splits proc_kind.splits)
  show "ps (fst (snd (async_get_res self l))) = ps self"
    using async_get_res_frame(1)[of self l] by (cases "async_get_res self l") simp
  show "ps (pooled_caller_init cpus size0 verb) = []"
    by (simp add: pooled_caller_init_def)
qed

theorem running_within_pool_size_witness:
  "(let s = \<lparr>pool_size = 1, verbose = 0, ps = [],
             cmd_queue = [(0, CmdList [''true''], [], []), (1, CmdList [''false''], [], [])],
             n_cmds = 2, idx2pid = [], pid2job = [], jobs_log = [], res_queue = [],
             running_hist = []\<rparr>;
        env = \<lparr>launch = (\<lambda>idx c. Inr (100 + idx))\<rparr>;
        t = \<lparr>exited = (\<lambda>p. Some 0), captured = (\<lambda>p. []), arrived_early = [],
             arrived_late = []\<rparr>
    in int (length (ps s)) \<le> pool_size s
       \<and> running_hist (snd (dispatch env s)) = [1]
       \<and> int (length (ps (snd (dispatch env s)))) \<le> 1
       \<and> running_hist (snd (wait env [t, t] s None False False)) = [1, 0, 1, 0]
       \<and> list_all (\<lambda>n. int n \<le> 1) (running_hist (snd (wait env [t, t] s None False False)))
       \<and> int (length (ps (snd (wait env [t, t] s None False False)))) \<le> 1)"
proof -
  let ?s = "\<lparr>pool_size = 1, verbose = 0, ps = [],
             cmd_queue = [(0, CmdList [''true''], [], []), (1, CmdList [''false''], [], [])],
             n_cmds = 2, idx2pid = [], pid2job = [], jobs_log = [], res_queue = [],
             running_hist = []\<rparr>"
  let ?env = "\<lparr>launch = (\<lambda>idx c. Inr (100 + idx))\<rparr>"
  let ?t = "\<lparr>exited = (\<lambda>p. Some 0), captured = (\<lambda>p. []), arrived_early = [],
             arrived_late = []\<rparr>"
  have le: "int (length (ps ?s)) \<le> pool_size ?s" by simp
  have hd: "running_hist (snd (dispatch ?env ?s)) = [1]"
    by (simp add: dispatch.simps start_job_def cmd_for_disp_def Let_def)
  have hw: "running_hist (snd (wait ?env [?t, ?t] ?s None False False)) = [1, 0, 1, 0]"
    by (simp add: wait_def dispatch.simps poll_from.simps start_job_def poll_one_def
        async_get_res_def cmd_for_disp_def Let_def)
  from running_within_pool_size[where self = ?s and psize = None and env = ?env
      and ticks = "[?t, ?t]" and rc = False and rj = False] le
  obtain new where
    d: "int (length (ps (snd (dispatch ?env ?s)))) \<le> 1"
    and n: "running_hist (snd (wait ?env [?t, ?t] ?s None False False)) = [] @ new"
      "\<forall>n \<in> set new. int n \<le> 1"
    and w: "int (length (ps (snd (wait ?env [?t, ?t] ?s None False False)))) \<le> 1"
    by auto
  from n have la: "list_all (\<lambda>n. int n \<le> 1)
      (running_hist (snd (wait ?env [?t, ?t] ?s None False False)))"
    by (simp add: list_all_iff)
  from le hd d hw la w show ?thesis unfolding Let_def by blast
qed

text \<open>
  C2 as stated (at every point during \<open>wait()\<close>, whatever the pool holds when the call is
  entered) fails when \<open>wait(pool_size=k)\<close> is called on a pool that already runs more than
  \<open>k\<close> jobs: \<open>wait\<close> assigns the override without looking at \<open>ps\<close>. On a pool of size three,
  three submitted commands and a call of \<open>dispatch()\<close> leave three jobs running;
  \<open>wait(pool_size=1)\<close> then loops with \<open>pool_size = 1\<close> and three running jobs for as long as
  none of them ends.
\<close>

theorem running_within_pool_size_counterexample:
  "(let env = \<lparr>launch = (\<lambda>idx c. Inr (100 + idx))\<rparr>;
        s0 = pooled_caller_init 4 None 0;
        s1 = snd (pc_run s0 (CmdList [''sleep'', ''60'']) [] []);
        s2 = snd (pc_run s1 (CmdList [''sleep'', ''60'']) [] []);
        s3 = snd (pc_run s2 (CmdList [''sleep'', ''60'']) [] []);
        d = snd (dispatch env s3);
        t = \<lparr>exited = (\<lambda>p. None), captured = (\<lambda>p. []), arrived_early = [],
             arrived_late = []\<rparr>;
        w = wait env [t] d (Some 1) False False
    in pool_size s3 = 3 \<and> length (ps s3) = 0 \<and> length (ps d) = 3
       \<and> fst w = Waiting \<and> pool_size (snd w) = 1 \<and> length (ps (snd w)) = 3
       \<and> pool_size (snd w) < int (length (ps (snd w))))"
  by (simp add: pooled_caller_init_def pc_run_def cmd_for_exec_def shell_of_kwargs_def
      wait_def dispatch.simps poll_from.simps start_job_def poll_one_def async_get_res_def
      cmd_for_disp_def Let_def)

subsection \<open>A temporary pool size is put back\<close>

lemma start_job_pool_size: "start_job env s = (e, s1) \<Longrightarrow> pool_size s1 = pool_size s"
  by (auto simp: start_job_def Let_def split: list.splits sum.splits prod.splits)

lemma poll_one_pool_size: "poll_one t p s = (e, s1) \<Longrightarrow> pool_size s1 = pool_size s"
  by (auto simp: poll_one_def Let_def split: option.splits proc_kind.splits)

lemma wait_loop_pool_size:
  assumes "wait_loop env ticks s ress = (out, s')"
  shows "pool_size s' = pool_size s"
proof -
  let ?I = "\<lambda>x. pool_size x = pool_size s"
  have "(case out of
           Returned l \<Rightarrow> ?I s' \<and> ps s' = [] \<and> cmd_queue s' = []
         | Raised e \<Rightarrow> ?I s'
         | Waiting \<Rightarrow> ?I s')"
  proof (rule wait_loop_rule[of ?I ?I, OF _ _ _ _ _ _ _ _ assms])
    show "\<And>env x s1. int (length (ps x)) < pool_size x \<Longrightarrow> cmd_queue x \<noteq> []
            \<Longrightarrow> ?I x \<Longrightarrow> start_job env x = (None, s1) \<Longrightarrow> ?I s1"
      by (simp add: start_job_pool_size)
    show "\<And>env x e s1. int (length (ps x)) < pool_size x \<Longrightarrow> cmd_queue x \<noteq> []
            \<Longrightarrow> ?I x \<Longrightarrow> start_job env x = (Some e, s1) \<Longrightarrow> ?I s1"
      by (simp add: start_job_pool_size)
    show "\<And>t p x s1. ?I x \<Longrightarrow> poll_one t p x = (None, s1) \<Longrightarrow> ?I s1"
      by (simp add: poll_one_pool_size)
    show "\<And>t p x e s1. ?I x \<Longrightarrow> poll_one t p x = (Some e, s1) \<Longrightarrow> ?I s1"
      by (simp add: poll_one_pool_size)
    show "\<And>x l s1 l1. ?I x \<Longrightarrow> async_get_res x l = (None, s1, l1) \<Longrightarrow> ?I s1"
      by (simp add: async_get_res_frame(3))
    show "\<And>x l e s1 l1. ?I x \<Longrightarrow> async_get_res x l = (Some e, s1, l1) \<Longrightarrow> ?I s1"
      by (simp add: async_get_res_frame(3))
    show "\<And>x q. ?I x \<Longrightarrow> ?I (x\<lparr>res_queue := q\<rparr>)" by simp
    show "?I s" by simp
  qed
  then show ?thesis by (cases out) simp_all
qed

text \<open>
  C9: when \<open>wait(pool_size=k)\<close> returns, the pool's \<open>pool_size\<close> is what it was before the
  call; a call without an override ends with \<open>pool_size\<close> unchanged however it ends; and
  no step of the loop assigns \<open>pool_size\<close>, so during the call with an override the size
  in force is \<open>k\<close> (the state in which such a call is left by a fault, or is still
  waiting, has \<open>pool_size = k\<close>).
\<close>

theorem wait_restores_pool_size:
  "(wait env ticks self (Some k) rc rj = (Returned v, s') \<longrightarrow> pool_size s' = pool_size self)
   \<and> pool_size (snd (wait env ticks self None rc rj)) = pool_size self
   \<and> ((\<forall>v. fst (wait env ticks self (Some k) rc rj) \<noteq> Returned v)
        \<longrightarrow> pool_size (snd (wait env ticks self (Some k) rc rj)) = k)"
proof (intro conjI impI)
  assume w: "wait env ticks self (Some k) rc rj = (Returned v, s')"
  then show "pool_size s' = pool_size self"
    by (cases rule: wait_elim) simp_all
next
  obtain out s' where w: "wait env ticks self None rc rj = (out, s')"
    by (cases "wait env ticks self None rc rj")
  then have "pool_size s' = pool_size self"
  proof (cases rule: wait_elim)
    case (in_loop out1)
    then show ?thesis using wait_loop_pool_size by fastforce
  next
    case (after_loop ress s1 e l2)
    from wait_loop_pool_size[OF after_loop(1)] async_get_res_frame(3)[OF after_loop(2)]
    show ?thesis by simp
  next
    case (returned ress s1 s2 l2 v)
    from wait_loop_pool_size[OF returned(1)] async_get_res_frame(3)[OF returned(2)] returned(4)
    show ?thesis by simp
  qed
  with w show "pool_size (snd (wait env ticks self None rc rj)) = pool_size self" by simp
next
  assume nr: "\<forall>v. fst (wait env ticks self (Some k) rc rj) \<noteq> Returned v"
  obtain out s' where w: "wait env ticks self (Some k) rc rj = (out, s')"
    by (cases "wait env ticks self (Some k) rc rj")
  then have "pool_size s' = k"
  proof (cases rule: wait_elim)
    case (in_loop out1)
    from wait_loop_pool_size[OF in_loop(1)] show ?thesis by simp
  next
    case (after_loop ress s1 e l2)
    from wait_loop_pool_size[OF after_loop(1)] async_get_res_frame(3)[OF after_loop(2)]
    show ?thesis by simp
  next
    case (returned ress s1 s2 l2 v)
    with nr w show ?thesis by simp
  qed
  with w show "pool_size (snd (wait env ticks self (Some k) rc rj)) = k" by simp
qed

subsection \<open>The batch state is reset, the history is kept\<close>






text \<open>
  Evaluation of the pool on concrete inputs: the equations of the loops and of their
  bodies, unfolded by the simplifier.
\<close>

lemmas pool_eval =
  wait_def dispatch.simps poll_from.simps start_job_def poll_one_def async_get_res_def
  cmd_for_disp_def Let_def

theorem wait_restores_pool_size_witness:
  "(let s1 = \<lparr>pool_size = 3, verbose = 0, ps = [],
              cmd_queue = [(0, CmdList [''true''], [], []), (1, CmdList [''echo'', ''hi''], [], [])],
              n_cmds = 2, idx2pid = [], pid2job = [], jobs_log = [], res_queue = [],
              running_hist = []\<rparr>;
        env = \<lparr>launch = (\<lambda>idx c. Inr (100 + idx))\<rparr>;
        t = \<lparr>exited = (\<lambda>p. Some 0), captured = (\<lambda>p. []), arrived_early = [],
             arrived_late = []\<rparr>
    in fst (wait env [t, t] s1 (Some 1) False False) = Returned (Ress [NoneV, NoneV])
       \<and> running_hist (snd (wait env [t, t] s1 (Some 1) False False)) = [1, 0, 1, 0]
       \<and> pool_size (snd (wait env [t, t] s1 (Some 1) False False)) = 3
       \<and> pool_size (snd (wait env [t, t] s1 None False False)) = 3
       \<and> fst (wait env [] s1 (Some 1) False False) = Waiting
       \<and> pool_size (snd (wait env [] s1 (Some 1) False False)) = 1)"
proof -
  let ?s1 = "\<lparr>pool_size = 3, verbose = 0, ps = [],
              cmd_queue = [(0, CmdList [''true''], [], []), (1, CmdList [''echo'', ''hi''], [], [])],
              n_cmds = 2, idx2pid = [], pid2job = [], jobs_log = [], res_queue = [],
              running_hist = []\<rparr>"
  let ?env = "\<lparr>launch = (\<lambda>idx c. Inr (100 + idx))\<rparr>"
  let ?t = "\<lparr>exited = (\<lambda>p. Some 0), captured = (\<lambda>p. []), arrived_early = [],
             arrived_late = []\<rparr>"
  let ?s2 = "\<lparr>pool_size = 3, verbose = 0, ps = [], cmd_queue = [], n_cmds = 0,
              idx2pid = [], pid2job = [],
              jobs_log = [\<lparr>j_idx = 0, j_cmd = DispStr ''true'', j_output = [], j_pid = 100,
                            j_returncode = Some 0\<rparr>,
                          \<lparr>j_idx = 1, j_cmd = DispStr ''echo hi'', j_output = [], j_pid = 101,
                            j_returncode = Some 0\<rparr>],
              res_queue = [], running_hist = [1, 0, 1, 0]\<rparr>"
  have ev: "wait ?env [?t, ?t] ?s1 (Some 1) False False = (Returned (Ress [NoneV, NoneV]), ?s2)"
    by (simp add: pool_eval)
  have w0: "fst (wait ?env [] ?s1 (Some 1) False False) = Waiting"
    by (simp add: pool_eval)
  from wait_restores_pool_size[of ?env "[?t, ?t]" ?s1 1 False False "Ress [NoneV, NoneV]" ?s2] ev
  have a: "pool_size (snd (wait ?env [?t, ?t] ?s1 (Some 1) False False)) = 3"
    and b: "pool_size (snd (wait ?env [?t, ?t] ?s1 None False False)) = 3"
    by simp_all
  from wait_restores_pool_size[of ?env "[]" ?s1 1 False False] w0
  have c: "pool_size (snd (wait ?env [] ?s1 (Some 1) False False)) = 1"
    by simp
  have d: "fst (wait ?env [?t, ?t] ?s1 (Some 1) False False) = Returned (Ress [NoneV, NoneV])"
    and e: "running_hist (snd (wait ?env [?t, ?t] ?s1 (Some 1) False False)) = [1, 0, 1, 0]"
    unfolding ev by simp_all
  from a b c d e w0 show ?thesis unfolding Let_def by blast
qed


text \<open>
  C1 at a concrete input: a pool of size five, five external commands, each of which has
  already exited when it is polled for the first time. The first pass removes the
  handles at positions 0, 2 and 4 (the iterator skips the handle that moves into a freed
  place), the second pass the handle of job 1, the third that of job 3; each pass and
  the step after the loop take one entry from the results channel. \<open>wait()\<close> returns four
  results for five jobs, and the entry of job 3 stays on the channel; with
  \<open>return_codes=True\<close> the same call returns five codes.
\<close>

theorem wait_returns_fewer_results:
  "(let s = \<lparr>pool_size = 5, verbose = 0, ps = [],
             cmd_queue = [(0, CmdList [''true''], [], []), (1, CmdList [''true''], [], []),
                          (2, CmdList [''true''], [], []), (3, CmdList [''true''], [], []),
                          (4, CmdList [''true''], [], [])],
             n_cmds = 5, idx2pid = [], pid2job = [], jobs_log = [], res_queue = [],
             running_hist = []\<rparr>;
        env = \<lparr>launch = (\<lambda>idx c. Inr (100 + idx))\<rparr>;
        t = \<lparr>exited = (\<lambda>p. Some 0), captured = (\<lambda>p. []), arrived_early = [],
             arrived_late = []\<rparr>
    in fst (wait env [t, t, t] s None False False) = Returned (Ress [NoneV, NoneV, NoneV, NoneV])
       \<and> res_queue (snd (wait env [t, t, t] s None False False))
           = [\<lparr>r_idx = 3, r_val = NoneV, r_output = None\<rparr>]
       \<and> map j_idx (jobs_log (snd (wait env [t, t, t] s None False False))) = [0, 1, 2, 3, 4]
       \<and> fst (wait env [t, t, t] s None True False) = Returned (Codes [0, 0, 0, 0, 0]))"
  by (simp add: pool_eval)

end
